theory Spec2Isabelle
  imports Main
begin

section \<open>Session store and authorization gate (internal/auth/auth.go)\<close>

text \<open>
  Go strings are byte strings; they are modelled as \<open>string\<close> (a list of 8-bit
  characters).  The package-level variable \<open>sessions\<close> (a Go map from token to
  \<open>Session\<close>) is passed explicitly and returned updated; the mutex around it is not
  modelled, every function below is one critical section.
\<close>

datatype os_error = OsError (IsNotExist: bool) (Error: string)

record Session =
  Username :: string
  Role :: string
  CreatedAt :: nat

type_synonym sessions = "string \<rightharpoonup> Session"

record Config =
  Wiki_RootDir :: string
  Wiki_DocumentsDir :: string
  Wiki_Private :: bool
  Server_AllowInsecureCookies :: bool

record Cookie =
  Name :: string
  Value :: string
  Path :: string
  HttpOnly :: bool
  Secure :: bool
  SameSiteStrict :: bool
  MaxAge :: int

record MoveRequest =
  SourcePath :: string
  TargetPath :: string
  NewSlug :: string

text \<open>
  The part of \<open>http.Request\<close> the handlers read: the method, the cookies in header
  order, and the outcome of decoding the JSON body into a \<open>MoveRequest\<close>
  (\<open>None\<close> when \<open>Decode\<close> returns an error).
\<close>

record Request =
  Method :: string
  Cookies :: "(string \<times> string) list"
  Body :: "MoveRequest option"

text \<open>\<open>r.Cookie(name)\<close>: the first cookie of that name, or \<open>ErrNoCookie\<close>.\<close>

definition Request_Cookie :: "Request \<Rightarrow> string \<Rightarrow> string option" where
  "Request_Cookie r name = map_of (Cookies r) name"

subsection \<open>GenerateSessionToken\<close>

definition encodeURL :: string where
  "encodeURL = ''ABCDEFGHIJKLMNOPQRSTUVWXYZabcdefghijklmnopqrstuvwxyz0123456789-_''"

definition sextet :: "nat \<Rightarrow> char" where
  "sextet n = encodeURL ! (n mod 64)"

text \<open>\<open>base64.URLEncoding.EncodeToString\<close>: the URL alphabet, padded with \<open>=\<close>.\<close>

fun EncodeToString :: "string \<Rightarrow> string" where
  "EncodeToString [] = []"
| "EncodeToString [a] =
     (let n = of_char a * 65536
      in [sextet (n div 262144), sextet (n div 4096), CHR ''='', CHR ''=''])"
| "EncodeToString [a, b] =
     (let n = of_char a * 65536 + of_char b * 256
      in [sextet (n div 262144), sextet (n div 4096), sextet (n div 64), CHR ''=''])"
| "EncodeToString (a # b # c # rest) =
     (let n = of_char a * 65536 + of_char b * 256 + of_char c
      in [sextet (n div 262144), sextet (n div 4096), sextet (n div 64), sextet n]
         @ EncodeToString rest)"

text \<open>
  \<open>rand.Read(b)\<close> either fails or fills the 32 bytes of \<open>b\<close>; its outcome is the
  argument \<open>rnd\<close>.
\<close>

definition GenerateSessionToken :: "os_error + string \<Rightarrow> os_error + string" where
  "GenerateSessionToken rnd =
     (case rnd of Inl err \<Rightarrow> Inl err | Inr b \<Rightarrow> Inr (EncodeToString b))"

subsection \<open>CreateSession, GetSession, ClearSession\<close>

text \<open>
  The \<open>http.ResponseWriter\<close> of the auth functions is the list of cookies set on it,
  oldest first.  \<open>now\<close> is the value of \<open>time.Now()\<close>.
\<close>

definition CreateSession ::
  "sessions \<Rightarrow> Cookie list \<Rightarrow> string \<Rightarrow> string \<Rightarrow> bool \<Rightarrow> Config \<Rightarrow> os_error + string \<Rightarrow> nat
     \<Rightarrow> os_error + (sessions \<times> Cookie list)" where
  "CreateSession ss w username role keepLoggedIn cfg rnd now =
     (case GenerateSessionToken rnd of
        Inl err \<Rightarrow> Inl err
      | Inr token \<Rightarrow>
          (let ss' = ss(token \<mapsto> \<lparr>Username = username, Role = role, CreatedAt = now\<rparr>);
               maxAge = (if keepLoggedIn then 3600 * 24 * 30 else 3600 * 24)
           in Inr (ss',
                w @ [\<lparr>Name = ''session_token'', Value = token, Path = ''/'', HttpOnly = True,
                       Secure = (\<not> Server_AllowInsecureCookies cfg), SameSiteStrict = True,
                       MaxAge = maxAge\<rparr>,
                     \<lparr>Name = ''session_user'', Value = username, Path = ''/'', HttpOnly = False,
                       Secure = (\<not> Server_AllowInsecureCookies cfg), SameSiteStrict = True,
                       MaxAge = maxAge\<rparr>])))"

definition GetSession :: "sessions \<Rightarrow> Request \<Rightarrow> Session option" where
  "GetSession ss r =
     (case Request_Cookie r ''session_token'' of
        None \<Rightarrow> None
      | Some c \<Rightarrow> ss c)"

definition ClearSession :: "sessions \<Rightarrow> Cookie list \<Rightarrow> Request \<Rightarrow> Config \<Rightarrow> sessions \<times> Cookie list" where
  "ClearSession ss w r cfg =
     (case Request_Cookie r ''session_token'' of
        None \<Rightarrow> (ss, w)
      | Some c \<Rightarrow>
          (ss(c := None),
           w @ [\<lparr>Name = ''session_token'', Value = '''', Path = ''/'', HttpOnly = True,
                  Secure = (\<not> Server_AllowInsecureCookies cfg), SameSiteStrict = False,
                  MaxAge = -1\<rparr>,
                \<lparr>Name = ''session_user'', Value = '''', Path = ''/'', HttpOnly = False,
                  Secure = (\<not> Server_AllowInsecureCookies cfg), SameSiteStrict = False,
                  MaxAge = -1\<rparr>]))"

definition CheckAuth :: "sessions \<Rightarrow> Request \<Rightarrow> Session option" where
  "CheckAuth ss r = GetSession ss r"

definition RequireAuth :: "sessions \<Rightarrow> Request \<Rightarrow> Config \<Rightarrow> bool" where
  "RequireAuth ss r cfg =
     (if \<not> Wiki_Private cfg then True
      else (let session = GetSession ss r in session \<noteq> None))"

definition RequireRole :: "sessions \<Rightarrow> Request \<Rightarrow> string \<Rightarrow> bool" where
  "RequireRole ss r requiredRole =
     (case GetSession ss r of
        None \<Rightarrow> False
      | Some session \<Rightarrow>
          (if requiredRole = ''admin'' then Role session = ''admin''
           else if requiredRole = ''editor'' then
             Role session = ''admin'' \<or> Role session = ''editor''
           else if requiredRole = ''viewer'' then
             Role session = ''admin'' \<or> Role session = ''editor'' \<or> Role session = ''viewer''
           else False))"


section \<open>The strings and path/filepath functions the handler calls\<close>

text \<open>
  The Go standard library functions used by \<open>move.go\<close>, for a Unix target
  (\<open>filepath.Separator\<close> is \<open>/\<close>, there are no volume names, \<open>FromSlash\<close> is the
  identity).
\<close>

definition backslash :: char where
  "backslash = CHR 0x5C"

definition HasPrefix :: "string \<Rightarrow> string \<Rightarrow> bool" where
  "HasPrefix s prefix = (take (length prefix) s = prefix)"

definition HasSuffix :: "string \<Rightarrow> string \<Rightarrow> bool" where
  "HasSuffix s suffix =
     (length suffix \<le> length s \<and> drop (length s - length suffix) s = suffix)"

definition TrimPrefix :: "string \<Rightarrow> string \<Rightarrow> string" where
  "TrimPrefix s prefix = (if HasPrefix s prefix then drop (length prefix) s else s)"

definition TrimSuffix :: "string \<Rightarrow> string \<Rightarrow> string" where
  "TrimSuffix s suffix = (if HasSuffix s suffix then take (length s - length suffix) s else s)"

text \<open>\<open>strings.ReplaceAll(s, old, new)\<close> for one-byte \<open>old\<close> and \<open>new\<close>.\<close>

definition ReplaceAll :: "string \<Rightarrow> char \<Rightarrow> char \<Rightarrow> string" where
  "ReplaceAll s old new = map (\<lambda>c. if c = old then new else c) s"

definition lower_byte :: "char \<Rightarrow> char" where
  "lower_byte c =
     (let n = (of_char c :: nat) in if 65 \<le> n \<and> n \<le> 90 then char_of (n + 32) else c)"

text \<open>
  \<open>strings.ToLower\<close> on ASCII strings, where Go lower-cases the bytes \<open>A\<close>..\<open>Z\<close>.
  Bytes from 128 on are left as they are, so for strings with letters outside ASCII
  this is not Go's function (which lower-cases them by the Unicode tables); the only
  theorems below that depend on its values run the handler on ASCII strings.
\<close>

definition ToLower :: "string \<Rightarrow> string" where
  "ToLower s = map lower_byte s"

text \<open>
  \<open>strings.EqualFold\<close> compares rune by rune under Unicode simple case folding.  The
  only runes outside ASCII whose folding orbit meets ASCII are U+017F (long s, UTF-8
  \<open>C5 BF\<close>), which folds with \<open>s\<close> and \<open>S\<close>, and U+212A (Kelvin sign, UTF-8
  \<open>E2 84 AA\<close>), which folds with \<open>k\<close> and \<open>K\<close>.  \<open>fold_ascii\<close> maps these two and
  the letters \<open>A\<close>..\<open>Z\<close> to their lower-case ASCII letter and leaves every other byte.
  Comparing the folded strings is \<open>strings.EqualFold\<close> whenever one of the two
  strings is ASCII, as the constant \<open>pages/home\<close> of both calls in the handler is.
\<close>

fun fold_ascii :: "string \<Rightarrow> string" where
  "fold_ascii [] = []"
| "fold_ascii [c1] = [lower_byte c1]"
| "fold_ascii [c1, c2] =
     (if c1 = CHR 0xC5 \<and> c2 = CHR 0xBF then ''s'' else lower_byte c1 # fold_ascii [c2])"
| "fold_ascii (c1 # c2 # c3 # cs) =
     (if c1 = CHR 0xE2 \<and> c2 = CHR 0x84 \<and> c3 = CHR 0xAA then CHR ''k'' # fold_ascii cs
      else if c1 = CHR 0xC5 \<and> c2 = CHR 0xBF then CHR ''s'' # fold_ascii (c3 # cs)
      else lower_byte c1 # fold_ascii (c2 # c3 # cs))"

definition EqualFold :: "string \<Rightarrow> string \<Rightarrow> bool" where
  "EqualFold s t = (fold_ascii s = fold_ascii t)"

text \<open>\<open>strings.Join(elems, "/")\<close>.\<close>

fun strings_Join :: "string list \<Rightarrow> string" where
  "strings_Join [] = []"
| "strings_Join [e] = e"
| "strings_Join (e # es) = e @ ''/'' @ strings_Join es"

text \<open>
  \<open>filepath.Clean\<close>.  \<open>out\<close> is the written part of the \<open>lazybuf\<close> (\<open>out.w\<close> is
  its length), the last argument of \<open>clean_loop\<close> is \<open>path[r:]\<close>.  \<open>backtrack\<close> is
  the inner loop of the \<open>..\<close> case: \<open>out.w--\<close>, then back to the last separator or to
  \<open>dotdot\<close>.
\<close>

fun backtrack_loop :: "nat \<Rightarrow> string \<Rightarrow> char \<Rightarrow> string" where
  "backtrack_loop dotdot out c =
     (if length out > dotdot \<and> c \<noteq> CHR ''/''
      then backtrack_loop dotdot (butlast out) (last out)
      else out)"

declare backtrack_loop.simps [simp del]

definition backtrack :: "nat \<Rightarrow> string \<Rightarrow> string" where
  "backtrack dotdot out = backtrack_loop dotdot (butlast out) (last out)"

function clean_loop :: "bool \<Rightarrow> nat \<Rightarrow> string \<Rightarrow> string \<Rightarrow> string" where
  "clean_loop rooted dotdot out [] = out"
| "clean_loop rooted dotdot out (c # cs) =
     (if c = CHR ''/'' then clean_loop rooted dotdot out cs
      else if c = CHR ''.'' \<and> (cs = [] \<or> hd cs = CHR ''/'') then
        clean_loop rooted dotdot out cs
      else if c = CHR ''.'' \<and> hd cs = CHR ''.'' \<and> (tl cs = [] \<or> hd (tl cs) = CHR ''/'') then
        (if length out > dotdot then
           clean_loop rooted dotdot (backtrack dotdot out) (tl cs)
         else if \<not> rooted then
           (let out' = (if length out > 0 then out @ ''/'' else out) @ ''..''
            in clean_loop rooted (length out') out' (tl cs))
         else clean_loop rooted dotdot out (tl cs))
      else
        (let out' = (if rooted \<and> length out \<noteq> 1 \<or> \<not> rooted \<and> length out \<noteq> 0
                     then out @ ''/'' else out)
         in clean_loop rooted dotdot (out' @ c # takeWhile (\<lambda>x. x \<noteq> CHR ''/'') cs)
              (dropWhile (\<lambda>x. x \<noteq> CHR ''/'') cs)))"
  by pat_completeness auto
termination
  by (relation "measure (\<lambda>(rooted, dotdot, out, cs). length cs)")
     (auto simp: le_imp_less_Suc length_dropWhile_le)

declare clean_loop.simps(2) [simp del]

definition Clean :: "string \<Rightarrow> string" where
  "Clean path =
     (if path = [] then ''.''
      else
        (let rooted = (hd path = CHR ''/'');
             out = (if rooted then clean_loop True 1 ''/'' (tl path)
                    else clean_loop False 0 [] path)
         in if out = [] then ''.'' else out))"

text \<open>\<open>filepath.Join\<close>: the elements from the first non-empty one on, joined and cleaned.\<close>

fun Join :: "string list \<Rightarrow> string" where
  "Join [] = []"
| "Join (e # es) = (if e \<noteq> [] then Clean (strings_Join (e # es)) else Join es)"

text \<open>\<open>filepath.Dir\<close>: clean what precedes the last element.\<close>

definition Dir :: "string \<Rightarrow> string" where
  "Dir path = Clean (rev (dropWhile (\<lambda>c. c \<noteq> CHR ''/'') (rev path)))"

text \<open>\<open>filepath.Base\<close>: the last element, trailing separators stripped first.\<close>

definition Base :: "string \<Rightarrow> string" where
  "Base path =
     (if path = [] then ''.''
      else
        (let stripped = rev (dropWhile (\<lambda>c. c = CHR ''/'') (rev path));
             last_elem = rev (takeWhile (\<lambda>c. c \<noteq> CHR ''/'') (rev stripped))
         in if last_elem = [] then ''/'' else last_elem))"

section \<open>The relocation handler (internal/handlers/move.go)\<close>

subsection \<open>cleanPath and sendJSONResponse\<close>

definition cleanPath :: "string \<Rightarrow> string" where
  "cleanPath path =
     (if path = [] then []
      else
        (let p1 = Clean path;
             p2 = TrimPrefix p1 ''/'';
             p3 = TrimSuffix p2 ''/''
         in ReplaceAll p3 backslash (CHR ''/'')))"

record MoveResponse =
  Success :: bool
  Message :: string
  NewPath :: string
  OldPath :: string

text \<open>What the handler writes: the status line, the content type, the JSON body.\<close>

record Response =
  StatusCode :: nat
  ContentType :: string
  Payload :: MoveResponse

definition sendJSONResponse :: "bool \<Rightarrow> string \<Rightarrow> nat \<Rightarrow> string \<Rightarrow> string \<Rightarrow> Response" where
  "sendJSONResponse success message statusCode newPath oldPath =
     \<lparr>StatusCode = statusCode, ContentType = ''application/json'',
      Payload = \<lparr>Success = success, Message = message,
                 NewPath = (if newPath \<noteq> [] then newPath else []),
                 OldPath = (if oldPath \<noteq> [] then oldPath else [])\<rparr>\<rparr>"

subsection \<open>The operating system\<close>

text \<open>
  The four \<open>os\<close> calls of the handler, over a filesystem state \<open>'fs\<close> that is passed
  in and returned.  \<open>Stat\<close> answers with \<open>FileInfo.IsDir\<close>, \<open>ReadDir\<close> with the entry
  names; \<open>MkdirAll\<close> and \<open>Rename\<close> answer with the error (\<open>None\<close> is \<open>nil\<close>) and
  the state they leave.  The handler is defined for every such operating system.
\<close>

record 'fs os =
  os_Stat :: "'fs \<Rightarrow> string \<Rightarrow> os_error + bool"
  os_ReadDir :: "'fs \<Rightarrow> string \<Rightarrow> os_error + string list"
  os_MkdirAll :: "'fs \<Rightarrow> string \<Rightarrow> os_error option \<times> 'fs"
  os_Rename :: "'fs \<Rightarrow> string \<Rightarrow> string \<Rightarrow> os_error option \<times> 'fs"

definition fmt_bool :: "bool \<Rightarrow> string" where
  "fmt_bool b = (if b then ''true'' else ''false'')"

subsection \<open>MoveDocumentHandler\<close>

text \<open>Lines 132--167: the resolved path, \<open>None\<close> in the branch that answers 400.\<close>

definition resolveNewPath :: "MoveRequest \<Rightarrow> bool \<Rightarrow> bool \<Rightarrow> string option" where
  "resolveNewPath moveReq isRename isMove =
     (if isRename \<and> \<not> isMove then
        (let parentDir = Dir (SourcePath moveReq);
             parentDir = (if parentDir = ''.'' then [] else parentDir)
         in Some (Join [parentDir, NewSlug moveReq]))
      else if isMove \<and> \<not> isRename then
        (let sourceName = Base (SourcePath moveReq)
         in if TargetPath moveReq = [] then Some sourceName
            else Some (Join [TargetPath moveReq, sourceName]))
      else if isMove \<and> isRename then
        (if TargetPath moveReq = [] then Some (NewSlug moveReq)
         else Some (Join [TargetPath moveReq, NewSlug moveReq]))
      else None)"

text \<open>Lines 172--200: the message of the 409 answer, \<open>None\<close> when there is no conflict.\<close>

definition checkConflict ::
  "'fs os \<Rightarrow> 'fs \<Rightarrow> MoveRequest \<Rightarrow> string \<Rightarrow> string \<Rightarrow> string option" where
  "checkConflict ops fs moveReq fullSourcePath fullTargetPath =
     (let targetDocPath = Join [fullTargetPath, ''document.md'']
      in if fullTargetPath \<noteq> fullSourcePath then
           (let sourceBaseLower = ToLower (Base (SourcePath moveReq));
                targetBaseLower = ToLower (NewSlug moveReq)
            in if (case os_Stat ops fs targetDocPath of Inr _ \<Rightarrow> True | Inl _ \<Rightarrow> False)
                  \<and> (sourceBaseLower \<noteq> targetBaseLower
                       \<or> Dir fullSourcePath = Dir fullTargetPath)
               then Some ''A document already exists at the target location''
               else
                 (case os_Stat ops fs fullTargetPath of
                    Inr True \<Rightarrow>
                      (case os_ReadDir ops fs fullTargetPath of
                         Inr entries \<Rightarrow>
                           (if length entries > 0
                            then Some ''Target directory already exists and is not empty''
                            else None)
                       | Inl _ \<Rightarrow> None)
                  | _ \<Rightarrow> None))
         else None)"

text \<open>Lines 229--249: where the versions of a document path live.\<close>

definition versionsPath :: "Config \<Rightarrow> string \<Rightarrow> string" where
  "versionsPath cfg p =
     (if p = ''pages/home'' then Join [Wiki_RootDir cfg, ''versions'', ''pages'', ''home'']
      else if HasPrefix p ''documents/'' then Join [Wiki_RootDir cfg, ''versions'', p]
      else Join [Wiki_RootDir cfg, ''versions'', ''documents'', p])"

text \<open>
  Lines 251--262 and 268--279: the same block for the versions and for the comments
  directory (\<open>name\<close> is the word in its two warnings).
\<close>

definition mirrorStore ::
  "'fs os \<Rightarrow> string \<Rightarrow> string \<Rightarrow> string \<Rightarrow> string list \<times> 'fs \<Rightarrow> string list \<times> 'fs" where
  "mirrorStore ops name sourcePath targetPath st =
     (case st of (logs, fs) \<Rightarrow>
        (case os_Stat ops fs sourcePath of
           Inl _ \<Rightarrow> (logs, fs)
         | Inr _ \<Rightarrow>
             (case os_MkdirAll ops fs (Dir targetPath) of
                (Some err, fs1) \<Rightarrow>
                  (logs @ [''Warning: Failed to create '' @ name @ '' target directory: ''
                           @ Error err], fs1)
              | (None, fs1) \<Rightarrow>
                  (case os_Rename ops fs1 sourcePath targetPath of
                     (Some err, fs2) \<Rightarrow>
                       (logs @ [''Warning: Failed to move '' @ name @ '' directory: ''
                                @ Error err], fs2)
                   | (None, fs2) \<Rightarrow> (logs, fs2)))))"

text \<open>Lines 226--282: the secondary stores, then the 200 answer.\<close>

definition mirrorAndReply ::
  "'fs os \<Rightarrow> Config \<Rightarrow> MoveRequest \<Rightarrow> string \<Rightarrow> string list \<times> 'fs
     \<Rightarrow> Response \<times> string list \<times> 'fs" where
  "mirrorAndReply ops cfg moveReq newPath st =
     (let versionsSourcePath = versionsPath cfg (SourcePath moveReq);
          versionsTargetPath = versionsPath cfg newPath;
          st1 = mirrorStore ops ''versions'' versionsSourcePath versionsTargetPath st;
          commentsSourcePath = Join [Wiki_RootDir cfg, ''comments'', SourcePath moveReq];
          commentsTargetPath = Join [Wiki_RootDir cfg, ''comments'', newPath];
          st2 = mirrorStore ops ''comments'' commentsSourcePath commentsTargetPath st1
      in (sendJSONResponse True ''Document moved successfully'' 200 newPath (SourcePath moveReq),
          st2))"

text \<open>Lines 202--224: the target's parent, the same-path guard, the primary rename.\<close>

definition moveDocument ::
  "'fs os \<Rightarrow> Config \<Rightarrow> MoveRequest \<Rightarrow> string \<Rightarrow> string \<Rightarrow> string \<Rightarrow> string list \<times> 'fs
     \<Rightarrow> Response \<times> string list \<times> 'fs" where
  "moveDocument ops cfg moveReq newPath fullSourcePath fullTargetPath st =
     (case st of (logs, fs) \<Rightarrow>
        (let targetDir = Dir fullTargetPath
         in case os_MkdirAll ops fs targetDir of
              (Some err, fs1) \<Rightarrow>
                (sendJSONResponse False (''Failed to create target directory: '' @ Error err)
                   500 [] [], logs, fs1)
            | (None, fs1) \<Rightarrow>
                (let logs1 = logs @ [''Moving document from '' @ fullSourcePath @ '' to ''
                                     @ fullTargetPath]
                 in if fullSourcePath = fullTargetPath then
                      (sendJSONResponse False ''Source and target paths are the same'' 400 [] [],
                       logs1 @ [''WARNING: Source and target paths are the same! This will cause an error.''],
                       fs1)
                    else
                      (case os_Rename ops fs1 fullSourcePath fullTargetPath of
                         (Some err, fs2) \<Rightarrow>
                           (sendJSONResponse False (''Failed to move: '' @ Error err) 500 [] [],
                            logs1 @ [''Error moving document: '' @ Error err], fs2)
                       | (None, fs2) \<Rightarrow> mirrorAndReply ops cfg moveReq newPath (logs1, fs2)))))"

text \<open>
  Lines 89--200: classification, the source's existence, the resolved target and the
  conflict check.  \<open>moveReq\<close> holds the cleaned paths.
\<close>

definition planAndMove ::
  "'fs os \<Rightarrow> Config \<Rightarrow> MoveRequest \<Rightarrow> 'fs \<Rightarrow> Response \<times> string list \<times> 'fs" where
  "planAndMove ops cfg moveReq fs =
     (let isRename = (NewSlug moveReq \<noteq> []);
          sourceBase = Base (SourcePath moveReq);
          sourceDir = Dir (SourcePath moveReq);
          moveToRoot = (TargetPath moveReq = [] \<and> sourceDir \<noteq> ''.'');
          logs0 = (if moveToRoot
                   then [''Detected move to root operation: '' @ SourcePath moveReq @ '' -> ''
                         @ NewSlug moveReq]
                   else []);
          isMove = (TargetPath moveReq \<noteq> [] \<or> moveToRoot);
          logs1 = logs0 @ [''Operation analysis: sourceBase='' @ sourceBase @ '', sourceDir=''
                           @ sourceDir @ '', moveToRoot='' @ fmt_bool moveToRoot];
          documentDir = Join [Wiki_RootDir cfg, Wiki_DocumentsDir cfg];
          fullSourcePath = Join [documentDir, SourcePath moveReq]
      in case os_Stat ops fs fullSourcePath of
           Inl err \<Rightarrow>
             (if IsNotExist err then
                (sendJSONResponse False ''Source document or category not found'' 404 [] [],
                 logs1, fs)
              else
                (sendJSONResponse False (''Error accessing source: '' @ Error err) 500 [] [],
                 logs1, fs))
         | Inr _ \<Rightarrow>
             (let logs2 = logs1 @
                    [''Move request: SourcePath='' @ SourcePath moveReq @ '', TargetPath=''
                       @ TargetPath moveReq @ '', NewSlug='' @ NewSlug moveReq,
                     ''Operation type: isRename='' @ fmt_bool isRename @ '', isMove=''
                       @ fmt_bool isMove]
              in case resolveNewPath moveReq isRename isMove of
                   None \<Rightarrow>
                     (sendJSONResponse False ''Either new slug or target path must be provided''
                        400 [] [], logs2, fs)
                 | Some newPath \<Rightarrow>
                     (let fullTargetPath = Join [documentDir, newPath];
                          logs3 = logs2 @ [''Calculated paths: newPath='' @ newPath
                                           @ '', fullTargetPath='' @ fullTargetPath]
                      in case checkConflict ops fs moveReq fullSourcePath fullTargetPath of
                           Some message \<Rightarrow>
                             (sendJSONResponse False message 409 [] [], logs3, fs)
                         | None \<Rightarrow>
                             moveDocument ops cfg moveReq newPath fullSourcePath fullTargetPath
                               (logs3, fs))))"

text \<open>
  Lines 30--87: method, session, body, the required field, normalisation and the home
  page guards.  The result is the response, the lines logged and the filesystem the
  call leaves.
\<close>

definition MoveDocumentHandler ::
  "'fs os \<Rightarrow> sessions \<Rightarrow> Config \<Rightarrow> Request \<Rightarrow> 'fs \<Rightarrow> Response \<times> string list \<times> 'fs" where
  "MoveDocumentHandler ops ss cfg r fs =
     (if Method r \<noteq> ''POST'' then
        (sendJSONResponse False ''Method not allowed'' 405 [] [], [], fs)
      else
        (case GetSession ss r of
           None \<Rightarrow>
             (\<lparr>StatusCode = 401, ContentType = ''application/json'',
               Payload = \<lparr>Success = False,
                          Message = ''Unauthorized. Admin or editor access required.'',
                          NewPath = [], OldPath = []\<rparr>\<rparr>, [], fs)
         | Some session \<Rightarrow>
             (case Body r of
                None \<Rightarrow> (sendJSONResponse False ''Invalid request format'' 400 [] [], [], fs)
              | Some decoded \<Rightarrow>
                  (if SourcePath decoded = [] then
                     (sendJSONResponse False ''Source path is required'' 400 [] [], [], fs)
                   else
                     (let moveReq = decoded
                            \<lparr>SourcePath := cleanPath (SourcePath decoded),
                             TargetPath := cleanPath (TargetPath decoded)\<rparr>
                      in if TargetPath moveReq = [] \<and> NewSlug moveReq = [] then
                           (sendJSONResponse False
                              ''Either target path or new slug must be provided'' 400 [] [],
                            [], fs)
                         else if SourcePath moveReq = [] \<or> SourcePath moveReq = ''/''
                                 \<or> SourcePath moveReq = ''pages/home''
                                 \<or> EqualFold (SourcePath moveReq) ''pages/home''
                                 \<or> HasSuffix (SourcePath moveReq) ''/homepage'' then
                           (sendJSONResponse False ''Cannot move or rename the home page''
                              400 [] [], [], fs)
                         else if TargetPath moveReq = ''pages/home''
                                 \<or> EqualFold (TargetPath moveReq) ''pages/home'' then
                           (sendJSONResponse False
                              ''Cannot move or rename to the home page location'' 400 [] [],
                            [], fs)
                         else planAndMove ops cfg moveReq fs)))))"

section \<open>An in-memory operating system\<close>

text \<open>
  A small directory tree on which the handler can be run: the list of the existing
  paths, each with its \<open>IsDir\<close> flag.  Paths are the cleaned strings the handler
  passes; a rename moves the entry and everything below it.
\<close>

type_synonym tree = "(string \<times> bool) list"

definition ENOENT :: "string \<Rightarrow> os_error" where
  "ENOENT p = OsError True (p @ '': no such file or directory'')"

definition mem_Stat :: "tree \<Rightarrow> string \<Rightarrow> os_error + bool" where
  "mem_Stat fs p = (case map_of fs p of None \<Rightarrow> Inl (ENOENT p) | Some d \<Rightarrow> Inr d)"

definition mem_children :: "tree \<Rightarrow> string \<Rightarrow> string list" where
  "mem_children fs p = filter (\<lambda>q. q \<noteq> p \<and> Dir q = p) (map fst fs)"

definition mem_ReadDir :: "tree \<Rightarrow> string \<Rightarrow> os_error + string list" where
  "mem_ReadDir fs p =
     (case map_of fs p of
        None \<Rightarrow> Inl (ENOENT p)
      | Some False \<Rightarrow> Inl (OsError False (p @ '': not a directory''))
      | Some True \<Rightarrow> Inr (map Base (mem_children fs p)))"

fun mem_mkdirs :: "tree \<Rightarrow> string list \<Rightarrow> os_error option \<times> tree" where
  "mem_mkdirs fs [] = (None, fs)"
| "mem_mkdirs fs (p # ps) =
     (case map_of fs p of
        Some True \<Rightarrow> mem_mkdirs fs ps
      | Some False \<Rightarrow> (Some (OsError False (p @ '': not a directory'')), fs)
      | None \<Rightarrow> mem_mkdirs (fs @ [(p, True)]) ps)"

text \<open>The path and its ancestors, outermost first.\<close>

definition mem_ancestors :: "string \<Rightarrow> string list" where
  "mem_ancestors p =
     filter (\<lambda>q. q \<noteq> [])
       (map (\<lambda>i. take i p) (filter (\<lambda>i. p ! i = CHR ''/'') [0..<length p]) @ [p])"

definition mem_MkdirAll :: "tree \<Rightarrow> string \<Rightarrow> os_error option \<times> tree" where
  "mem_MkdirAll fs p = mem_mkdirs fs (mem_ancestors p)"

definition mem_Rename :: "tree \<Rightarrow> string \<Rightarrow> string \<Rightarrow> os_error option \<times> tree" where
  "mem_Rename fs old new =
     (if map_of fs old = None then (Some (ENOENT old), fs)
      else if old = new then (None, fs)
      else if map_of fs (Dir new) \<noteq> Some True then (Some (ENOENT new), fs)
      else if map_of fs new \<noteq> None \<and> (map_of fs new \<noteq> map_of fs old \<or> mem_children fs new \<noteq> [])
        then (Some (OsError False (new @ '': file exists'')), fs)
      else
        (None,
         map (\<lambda>(q, d). if q = old then (new, d)
                        else if HasPrefix q (old @ ''/'') then (new @ drop (length old) q, d)
                        else (q, d))
           (filter (\<lambda>(q, d). q \<noteq> new) fs)))"

definition mem_os :: "tree os" where
  "mem_os = \<lparr>os_Stat = mem_Stat, os_ReadDir = mem_ReadDir, os_MkdirAll = mem_MkdirAll,
             os_Rename = mem_Rename\<rparr>"


text \<open>A configuration, sessions and a tree for running the handler.\<close>

definition wiki_cfg :: Config where
  "wiki_cfg = \<lparr>Wiki_RootDir = ''data'', Wiki_DocumentsDir = ''documents'', Wiki_Private = False,
               Server_AllowInsecureCookies = False\<rparr>"

definition no_cookies :: Request where
  "no_cookies = \<lparr>Method = ''GET'', Cookies = [], Body = None\<rparr>"

definition with_token :: "string \<Rightarrow> Request" where
  "with_token t = \<lparr>Method = ''GET'', Cookies = [(''session_token'', t)], Body = None\<rparr>"

definition wiki_sessions :: sessions where
  "wiki_sessions =
     [''tok-viewer'' \<mapsto> \<lparr>Username = ''vera'', Role = ''viewer'', CreatedAt = 0\<rparr>,
      ''tok-editor'' \<mapsto> \<lparr>Username = ''erin'', Role = ''editor'', CreatedAt = 0\<rparr>]"

definition post :: "string \<Rightarrow> string \<Rightarrow> string \<Rightarrow> string \<Rightarrow> Request" where
  "post token sourcePath targetPath newSlug =
     \<lparr>Method = ''POST'', Cookies = [(''session_token'', token)],
      Body = Some \<lparr>SourcePath = sourcePath, TargetPath = targetPath, NewSlug = newSlug\<rparr>\<rparr>"

definition wiki_tree :: tree where
  "wiki_tree =
     [(''.'', True), (''data'', True), (''data/documents'', True),
      (''data/documents/alpha'', True), (''data/documents/alpha/document.md'', False),
      (''data/documents/homepage'', True), (''data/documents/homepage/document.md'', False),
      (''data/documents/Projects'', True),
      (''data/documents/Projects/test'', True), (''data/documents/Projects/test/document.md'', False),
      (''data/documents/Archive'', True),
      (''data/documents/Archive/Test'', True), (''data/documents/Archive/Test/document.md'', False),
      (''data/versions'', True), (''data/versions/documents'', True),
      (''data/versions/documents/alpha'', True),
      (''data/versions/documents/beta'', True),
      (''data/versions/documents/beta/1.md'', False)]"

section \<open>filepath.Clean by path elements\<close>

text \<open>
  What \<open>Clean\<close> computes, read off its loop: the path is cut at the separators into
  its elements; empty elements and \<open>.\<close> are dropped, \<open>..\<close> removes the element
  before it when there is one that is not itself \<open>..\<close>, is kept in a relative
  path and dropped in a rooted one; what remains is joined again.  \<open>wf_stack\<close> is
  the invariant of the elements written so far, \<open>outbuf\<close> and \<open>ddlen\<close> are the
  buffer and the index \<open>dotdot\<close> they stand for.
\<close>

fun elements :: "string \<Rightarrow> string list" where
  "elements [] = [[]]"
| "elements (c # cs) =
     (if c = CHR ''/'' then [] # elements cs
      else (case elements cs of e # es \<Rightarrow> (c # e) # es | [] \<Rightarrow> [[c]]))"

definition push :: "bool \<Rightarrow> string list \<Rightarrow> string \<Rightarrow> string list" where
  "push rooted st e =
     (if e = [] \<or> e = ''.'' then st
      else if e = ''..'' then
        (if st \<noteq> [] \<and> last st \<noteq> ''..'' then butlast st
         else if \<not> rooted then st @ [''..'']
         else st)
      else st @ [e])"

definition outbuf :: "bool \<Rightarrow> string list \<Rightarrow> string" where
  "outbuf rooted st = (if rooted then ''/'' else []) @ strings_Join st"

definition ddlen :: "bool \<Rightarrow> string list \<Rightarrow> nat" where
  "ddlen rooted st =
     (if rooted then 1 else length (strings_Join (takeWhile (\<lambda>e. e = ''..'') st)))"

definition wf_stack :: "bool \<Rightarrow> string list \<Rightarrow> bool" where
  "wf_stack rooted st \<longleftrightarrow>
     (\<forall>e \<in> set st. e \<noteq> [] \<and> (\<forall>x \<in> set e. x \<noteq> CHR ''/'') \<and> e \<noteq> ''.'')
     \<and> ''..'' \<notin> set (dropWhile (\<lambda>e. e = ''..'') st)
     \<and> (rooted \<longrightarrow> ''..'' \<notin> set st)"

lemma elements_not_Nil [simp]: "elements cs \<noteq> []"
  by (induction cs) (auto split: list.splits)

lemma elements_takeWhile:
  "elements cs = takeWhile (\<lambda>x. x \<noteq> CHR ''/'') cs
     # (case dropWhile (\<lambda>x. x \<noteq> CHR ''/'') cs of [] \<Rightarrow> [] | _ # r \<Rightarrow> elements r)"
  by (induction cs) (auto split: list.splits)

lemma strings_Join_snoc:
  "strings_Join (st @ [e]) = (if st = [] then e else strings_Join st @ ''/'' @ e)"
  by (induction st rule: strings_Join.induct) auto

lemma strings_Join_Cons:
  "strings_Join (e # st) = (if st = [] then e else e @ ''/'' @ strings_Join st)"
  by (cases st) auto

lemma strings_Join_empty:
  "\<forall>e \<in> set st. e \<noteq> [] \<Longrightarrow> strings_Join st = [] \<longleftrightarrow> st = []"
  by (induction st rule: strings_Join.induct) auto

lemma backtrack_loop_stop:
  "\<forall>x \<in> set xs. x \<noteq> CHR ''/'' \<Longrightarrow> c \<noteq> CHR ''/'' \<Longrightarrow> length pre = dotdot \<Longrightarrow>
     backtrack_loop dotdot (pre @ xs) c = pre"
proof (induction xs arbitrary: c rule: rev_induct)
  case Nil
  then show ?case by (simp add: backtrack_loop.simps)
next
  case (snoc x xs)
  then show ?case
    by (subst backtrack_loop.simps) (simp add: butlast_append flip: append_assoc)
qed

lemma backtrack_loop_sep:
  "\<forall>x \<in> set xs. x \<noteq> CHR ''/'' \<Longrightarrow> c \<noteq> CHR ''/'' \<Longrightarrow> dotdot \<le> length pre \<Longrightarrow>
     backtrack_loop dotdot (pre @ CHR ''/'' # xs) c = pre"
proof (induction xs arbitrary: c rule: rev_induct)
  case Nil
  then show ?case
    by (subst backtrack_loop.simps, simp, subst backtrack_loop.simps, simp)
next
  case (snoc x xs)
  have "backtrack_loop dotdot (pre @ ''/'' @ xs @ [x]) c
          = backtrack_loop dotdot (pre @ ''/'' @ xs) x"
    using snoc.prems
    by (subst backtrack_loop.simps) (simp add: butlast_append flip: append_assoc)
  with snoc show ?case by simp
qed

lemma backtrack_stop:
  assumes "e \<noteq> []" "\<forall>x \<in> set e. x \<noteq> CHR ''/''" "length pre = dotdot"
  shows "backtrack dotdot (pre @ e) = pre"
proof (cases e rule: rev_cases)
  case Nil
  with assms show ?thesis by simp
next
  case (snoc xs x)
  have "backtrack dotdot (pre @ xs @ [x]) = backtrack_loop dotdot (pre @ xs) x"
    by (simp add: backtrack_def butlast_append flip: append_assoc)
  with assms snoc show ?thesis by (simp add: backtrack_loop_stop)
qed

lemma backtrack_sep:
  assumes "e \<noteq> []" "\<forall>x \<in> set e. x \<noteq> CHR ''/''" "dotdot \<le> length pre"
  shows "backtrack dotdot (pre @ CHR ''/'' # e) = pre"
proof (cases e rule: rev_cases)
  case Nil
  with assms show ?thesis by simp
next
  case (snoc xs x)
  have "backtrack dotdot (pre @ ''/'' @ xs @ [x]) = backtrack_loop dotdot (pre @ ''/'' @ xs) x"
    by (simp add: backtrack_def butlast_append flip: append_assoc)
  with assms snoc show ?thesis by (simp add: backtrack_loop_sep)
qed

lemma strings_Join_append:
  "strings_Join (xs @ ys)
     = strings_Join xs @ (if xs = [] \<or> ys = [] then [] else ''/'') @ strings_Join ys"
proof (induction xs rule: strings_Join.induct)
  case 1
  show ?case by simp
next
  case (2 e)
  show ?case by (cases ys) simp_all
next
  case (3 e v va)
  then show ?case by simp
qed

lemma length_Join_takeWhile:
  "length (strings_Join (takeWhile P st)) \<le> length (strings_Join st)"
proof -
  have "length (strings_Join (takeWhile P st))
          \<le> length (strings_Join (takeWhile P st @ dropWhile P st))"
    unfolding strings_Join_append by simp
  then show ?thesis by simp
qed

lemma takeWhile_snoc_not:
  "\<not> P e \<Longrightarrow> takeWhile P (xs @ [e]) = takeWhile P xs"
  by (induction xs) auto

lemma dropWhile_snoc_not:
  "\<not> P e \<Longrightarrow> dropWhile P (xs @ [e]) = dropWhile P xs @ [e]"
  by (induction xs) auto

lemma last_dropWhile:
  "dropWhile P xs \<noteq> [] \<Longrightarrow> last (dropWhile P xs) = last xs"
  by (induction xs) (auto split: if_splits)

lemma wf_stack_all_dotdot:
  assumes wf: "wf_stack rooted st" and top: "st = [] \<or> last st = ''..''"
  shows "takeWhile (\<lambda>e. e = ''..'') st = st"
proof (cases "dropWhile (\<lambda>e. e = ''..'') st = []")
  case True
  then show ?thesis
    using takeWhile_dropWhile_id [of "\<lambda>e. e = ''..''" st] by simp
next
  case False
  then have "st \<noteq> []" by auto
  with top have l: "last st = ''..''" by simp
  with last_dropWhile [OF False]
  have "last (dropWhile (\<lambda>e. e = ''..'') st) = ''..''" by simp
  with False have "''..'' \<in> set (dropWhile (\<lambda>e. e = ''..'') st)"
    using last_in_set [of "dropWhile (\<lambda>e. e = ''..'') st"] by simp
  with wf show ?thesis by (simp add: wf_stack_def)
qed

lemma wf_stack_rooted_top:
  assumes wf: "wf_stack True st" and top: "st = [] \<or> last st = ''..''"
  shows "st = []"
proof (rule ccontr)
  assume n: "st \<noteq> []"
  with top have "last st = ''..''" by simp
  with last_in_set [OF n] have "''..'' \<in> set st" by simp
  with wf show False by (simp add: wf_stack_def)
qed

lemma Join_empty_iff:
  "wf_stack rooted st \<Longrightarrow> strings_Join st = [] \<longleftrightarrow> st = []"
  by (rule strings_Join_empty) (simp add: wf_stack_def)

lemma outbuf_snoc:
  "outbuf rooted (xs @ [e])
     = (if xs = [] then outbuf rooted xs @ e else outbuf rooted xs @ CHR ''/'' # e)"
  by (simp add: outbuf_def strings_Join_snoc)

lemma ddlen_le_outbuf: "ddlen rooted xs \<le> length (outbuf rooted xs)"
  by (simp add: ddlen_def outbuf_def length_Join_takeWhile)

lemma pop_stack:
  assumes wf: "wf_stack rooted (xs @ [e])" and e: "e \<noteq> ''..''"
  shows "ddlen rooted (xs @ [e]) < length (outbuf rooted (xs @ [e]))"
    and "backtrack (ddlen rooted (xs @ [e])) (outbuf rooted (xs @ [e])) = outbuf rooted xs"
    and "ddlen rooted (xs @ [e]) = ddlen rooted xs"
    and "wf_stack rooted xs"
proof -
  from wf have ne: "e \<noteq> []" and ns: "\<forall>x \<in> set e. x \<noteq> CHR ''/''"
    by (simp_all add: wf_stack_def)
  from e show dd: "ddlen rooted (xs @ [e]) = ddlen rooted xs"
    by (simp add: ddlen_def takeWhile_snoc_not)
  from ne have "length (outbuf rooted xs) < length (outbuf rooted (xs @ [e]))"
    by (simp add: outbuf_snoc)
  with ddlen_le_outbuf [of rooted xs]
  show "ddlen rooted (xs @ [e]) < length (outbuf rooted (xs @ [e]))"
    by (simp only: dd)
  show "backtrack (ddlen rooted (xs @ [e])) (outbuf rooted (xs @ [e])) = outbuf rooted xs"
  proof (cases "xs = []")
    case True
    then have "length (outbuf rooted xs) = ddlen rooted xs"
      by (simp add: outbuf_def ddlen_def)
    from backtrack_stop [OF ne ns this] have
      "backtrack (ddlen rooted xs) (outbuf rooted xs @ e) = outbuf rooted xs" .
    with True show ?thesis
      unfolding dd outbuf_snoc by simp
  next
    case False
    from backtrack_sep [OF ne ns ddlen_le_outbuf [of rooted xs]] have
      "backtrack (ddlen rooted xs) (outbuf rooted xs @ CHR ''/'' # e) = outbuf rooted xs" .
    with False show ?thesis
      unfolding dd outbuf_snoc by simp
  qed
  from wf e show "wf_stack rooted xs"
    by (simp add: wf_stack_def dropWhile_snoc_not)
qed

lemma push_dotdot_stack:
  assumes wf: "wf_stack False st" and top: "st = [] \<or> last st = ''..''"
  shows "outbuf False (st @ [''..''])
           = (if length (outbuf False st) > 0 then outbuf False st @ ''/'' else outbuf False st)
             @ ''..''"
    and "ddlen False (st @ [''..'']) = length (outbuf False (st @ [''..'']))"
    and "wf_stack False (st @ [''..''])"
proof -
  note all = wf_stack_all_dotdot [OF wf top]
  from Join_empty_iff [OF wf]
  show "outbuf False (st @ [''..''])
           = (if length (outbuf False st) > 0 then outbuf False st @ ''/'' else outbuf False st)
             @ ''..''"
    by (simp add: outbuf_def strings_Join_snoc)
  have tw: "takeWhile (\<lambda>e. e = ''..'') (st @ [''..'']) = st @ [''..'']"
  proof -
    have "takeWhile (\<lambda>e. e = ''..'') (takeWhile (\<lambda>e. e = ''..'') st @ [''..''])
            = takeWhile (\<lambda>e. e = ''..'') st @ [''..'']"
      by (subst takeWhile_append2) (auto dest: set_takeWhileD)
    then show ?thesis by (simp only: all)
  qed
  then show "ddlen False (st @ [''..'']) = length (outbuf False (st @ [''..'']))"
    by (simp add: ddlen_def outbuf_def)
  from takeWhile_dropWhile_id [of "\<lambda>e. e = ''..''" "st @ [''..'']"]
  have "dropWhile (\<lambda>e. e = ''..'') (st @ [''..'']) = []"
    unfolding tw by (rule append_self_conv [THEN iffD1])
  with wf show "wf_stack False (st @ [''..''])"
    by (simp add: wf_stack_def)
qed

lemma push_real_stack:
  assumes wf: "wf_stack rooted st"
    and e: "e \<noteq> []" "\<forall>x \<in> set e. x \<noteq> CHR ''/''" "e \<noteq> ''.''" "e \<noteq> ''..''"
  shows "outbuf rooted (st @ [e])
           = (if rooted \<and> length (outbuf rooted st) \<noteq> 1
                 \<or> \<not> rooted \<and> length (outbuf rooted st) \<noteq> 0
              then outbuf rooted st @ ''/'' else outbuf rooted st) @ e"
    and "ddlen rooted (st @ [e]) = ddlen rooted st"
    and "wf_stack rooted (st @ [e])"
proof -
  from Join_empty_iff [OF wf]
  show "outbuf rooted (st @ [e])
           = (if rooted \<and> length (outbuf rooted st) \<noteq> 1
                 \<or> \<not> rooted \<and> length (outbuf rooted st) \<noteq> 0
              then outbuf rooted st @ ''/'' else outbuf rooted st) @ e"
    by (simp add: outbuf_def strings_Join_snoc)
  from e show "ddlen rooted (st @ [e]) = ddlen rooted st"
    by (simp add: ddlen_def takeWhile_snoc_not)
  from wf e show "wf_stack rooted (st @ [e])"
    by (simp add: wf_stack_def dropWhile_snoc_not)
qed

lemma dot_element:
  "(c = CHR ''.'' \<and> (cs = [] \<or> hd cs = CHR ''/''))
     \<longleftrightarrow> c # takeWhile (\<lambda>x. x \<noteq> CHR ''/'') cs = ''.''"
  by (cases cs) auto

lemma dotdot_element:
  assumes "\<not> (c = CHR ''.'' \<and> (cs = [] \<or> hd cs = CHR ''/''))"
  shows "(c = CHR ''.'' \<and> hd cs = CHR ''.'' \<and> (tl cs = [] \<or> hd (tl cs) = CHR ''/''))
           \<longleftrightarrow> c # takeWhile (\<lambda>x. x \<noteq> CHR ''/'') cs = ''..''"
proof (cases cs)
  case Nil
  with assms show ?thesis by auto
next
  case (Cons x xs)
  with assms show ?thesis by (cases xs) auto
qed

lemma dot_rest:
  "c # takeWhile (\<lambda>x. x \<noteq> CHR ''/'') cs = ''.'' \<Longrightarrow> dropWhile (\<lambda>x. x \<noteq> CHR ''/'') cs = cs"
  by (cases cs) (auto split: if_splits)

lemma dotdot_rest:
  "c # takeWhile (\<lambda>x. x \<noteq> CHR ''/'') cs = ''..'' \<Longrightarrow>
     dropWhile (\<lambda>x. x \<noteq> CHR ''/'') cs = tl cs"
proof (cases cs)
  case Nil
  then show ?thesis by simp
next
  case (Cons x xs)
  assume "c # takeWhile (\<lambda>x. x \<noteq> CHR ''/'') cs = ''..''"
  with Cons show ?thesis by (cases xs) (auto split: if_splits)
qed

lemma clean_loop_step:
  assumes c: "c \<noteq> CHR ''/''"
  shows "clean_loop rooted dd out (c # cs) =
     (if c # takeWhile (\<lambda>x. x \<noteq> CHR ''/'') cs = ''.'' then
        clean_loop rooted dd out (dropWhile (\<lambda>x. x \<noteq> CHR ''/'') cs)
      else if c # takeWhile (\<lambda>x. x \<noteq> CHR ''/'') cs = ''..'' then
        (if length out > dd then
           clean_loop rooted dd (backtrack dd out) (dropWhile (\<lambda>x. x \<noteq> CHR ''/'') cs)
         else if \<not> rooted then
           clean_loop rooted (length ((if length out > 0 then out @ ''/'' else out) @ ''..''))
             ((if length out > 0 then out @ ''/'' else out) @ ''..'')
             (dropWhile (\<lambda>x. x \<noteq> CHR ''/'') cs)
         else clean_loop rooted dd out (dropWhile (\<lambda>x. x \<noteq> CHR ''/'') cs))
      else clean_loop rooted dd
             ((if rooted \<and> length out \<noteq> 1 \<or> \<not> rooted \<and> length out \<noteq> 0
               then out @ ''/'' else out) @ c # takeWhile (\<lambda>x. x \<noteq> CHR ''/'') cs)
             (dropWhile (\<lambda>x. x \<noteq> CHR ''/'') cs))"
proof (cases "c # takeWhile (\<lambda>x. x \<noteq> CHR ''/'') cs = ''.''")
  case True
  then have p1: "c = CHR ''.'' \<and> (cs = [] \<or> hd cs = CHR ''/'')"
    using dot_element [of c cs] by blast
  show ?thesis
    by (subst clean_loop.simps(2))
       (simp only: if_not_P [OF c] if_P [OF p1] if_P [OF True] dot_rest [OF True])
next
  case False
  then have n1: "\<not> (c = CHR ''.'' \<and> (cs = [] \<or> hd cs = CHR ''/''))"
    using dot_element [of c cs] by blast
  show ?thesis
  proof (cases "c # takeWhile (\<lambda>x. x \<noteq> CHR ''/'') cs = ''..''")
    case True
    then have d: "c = CHR ''.'' \<and> hd cs = CHR ''.'' \<and> (tl cs = [] \<or> hd (tl cs) = CHR ''/'')"
      using dotdot_element [OF n1] by blast
    show ?thesis
      by (subst clean_loop.simps(2))
         (simp only: if_not_P [OF c] if_not_P [OF n1] if_P [OF d] if_not_P [OF False]
            if_P [OF True] dotdot_rest [OF True] Let_def)
  next
    case nd: False
    then have d: "\<not> (c = CHR ''.'' \<and> hd cs = CHR ''.'' \<and> (tl cs = [] \<or> hd (tl cs) = CHR ''/''))"
      using dotdot_element [OF n1] by blast
    show ?thesis
      by (subst clean_loop.simps(2))
         (simp only: if_not_P [OF c] if_not_P [OF n1] if_not_P [OF d] if_not_P [OF False]
            if_not_P [OF nd] Let_def)
  qed
qed

lemma push_Nil [simp]: "push rooted st [] = st"
  by (simp add: push_def)

lemma dropWhile_sep:
  "dropWhile (\<lambda>x. x \<noteq> CHR ''/'') cs = [] \<or> hd (dropWhile (\<lambda>x. x \<noteq> CHR ''/'') cs) = CHR ''/''"
  using hd_dropWhile [of "\<lambda>x. x \<noteq> CHR ''/''" cs] by blast

lemma foldl_push_rest:
  assumes "r = [] \<or> hd r = CHR ''/''"
  shows "foldl (push rooted) st (elements r)
           = foldl (push rooted) st (case r of [] \<Rightarrow> [] | _ # r' \<Rightarrow> elements r')"
  using assms by (cases r) auto

lemma foldl_push_step:
  assumes c: "c \<noteq> CHR ''/''"
  shows "foldl (push rooted) st (elements (c # cs))
           = foldl (push rooted) (push rooted st (c # takeWhile (\<lambda>x. x \<noteq> CHR ''/'') cs))
               (elements (dropWhile (\<lambda>x. x \<noteq> CHR ''/'') cs))"
proof -
  have "elements (c # cs) = (c # takeWhile (\<lambda>x. x \<noteq> CHR ''/'') cs)
          # (case dropWhile (\<lambda>x. x \<noteq> CHR ''/'') cs of [] \<Rightarrow> [] | _ # r \<Rightarrow> elements r)"
    using c by (subst elements_takeWhile) simp
  then show ?thesis
    by (simp only: foldl_Cons foldl_push_rest [OF dropWhile_sep])
qed

lemma length_dropWhile_less: "length (dropWhile P cs) < length (c # cs)"
  by (simp add: le_imp_less_Suc length_dropWhile_le)

lemma real_element:
  assumes "c \<noteq> CHR ''/''"
  shows "c # takeWhile (\<lambda>x. x \<noteq> CHR ''/'') cs \<noteq> []"
    and "\<forall>x \<in> set (c # takeWhile (\<lambda>x. x \<noteq> CHR ''/'') cs). x \<noteq> CHR ''/''"
  using assms by (auto dest: set_takeWhileD)

lemma clean_loop_refines:
  "wf_stack rooted st \<Longrightarrow>
     clean_loop rooted (ddlen rooted st) (outbuf rooted st) cs
       = outbuf rooted (foldl (push rooted) st (elements cs))"
proof (induction cs arbitrary: st rule: length_induct)
  case (1 cs)
  note IH = "1.IH" [rule_format] and wf = "1.prems"
  show ?case
  proof (cases cs)
    case Nil
    then show ?thesis by simp
  next
    case (Cons c cs')
    show ?thesis
    proof (cases "c = CHR ''/''")
      case True
      have "length cs' < length cs" using Cons by simp
      from IH [OF this wf] True Cons show ?thesis
        by (simp add: clean_loop.simps(2))
    next
      case False
      let ?e = "c # takeWhile (\<lambda>x. x \<noteq> CHR ''/'') cs'"
      let ?r = "dropWhile (\<lambda>x. x \<noteq> CHR ''/'') cs'"
      have len: "length ?r < length cs"
        unfolding Cons by (rule length_dropWhile_less)
      note ih = IH [OF len]
      note fs = foldl_push_step [OF False, of rooted st cs']
      note cl = clean_loop_step [OF False, of rooted "ddlen rooted st" "outbuf rooted st" cs']
      show ?thesis
      proof (cases "?e = ''.''")
        case True
        then have "push rooted st ?e = st" by (simp add: push_def)
        with ih [OF wf] True show ?thesis
          unfolding Cons cl fs by simp
      next
        case nd: False
        show ?thesis
        proof (cases "?e = ''..''")
          case True
          show ?thesis
          proof (cases "st \<noteq> [] \<and> last st \<noteq> ''..''")
            case top: True
            then obtain xs x where st: "st = xs @ [x]" and x: "x \<noteq> ''..''"
              by (cases st rule: rev_cases) auto
            from wf have wfx: "wf_stack rooted (xs @ [x])" by (simp only: st)
            note p = pop_stack [OF wfx x]
            have pu: "push rooted st ?e = xs"
              using True st x by (simp add: push_def)
            from ih [OF p(4)] have
              "clean_loop rooted (ddlen rooted st) (outbuf rooted xs) ?r
                 = outbuf rooted (foldl (push rooted) xs (elements ?r))"
              by (simp only: st p(3))
            with p(1,2) show ?thesis
              unfolding Cons cl fs pu
              by (simp only: st if_not_P [OF nd] if_P [OF True] if_True)
          next
            case top: False
            then have t: "st = [] \<or> last st = ''..''" by blast
            show ?thesis
            proof (cases rooted)
              case r: True
              with wf t have e: "st = []"
                using wf_stack_rooted_top [of st] by simp
              with r True have pu: "push rooted st ?e = st" by (auto simp: push_def)
              from e r have le: "\<not> ddlen rooted st < length (outbuf rooted st)"
                by (simp add: ddlen_def outbuf_def)
              have nr: "\<not> \<not> rooted" using r by simp
              from ih [OF wf] show ?thesis
                unfolding Cons cl fs pu
                by (simp only: if_not_P [OF nd] if_P [OF True] if_not_P [OF le] if_not_P [OF nr])
            next
              case r: False
              with wf have wff: "wf_stack False st" by simp
              note pd = push_dotdot_stack [OF wff t]
              from r True top have pu: "push rooted st ?e = st @ [''..'']"
                by (auto simp: push_def)
              have "ddlen False st = length (outbuf False st)"
                unfolding ddlen_def outbuf_def
                by (simp only: wf_stack_all_dotdot [OF wff t] if_False append_Nil)
              then have le: "\<not> ddlen False st < length (outbuf False st)"
                by simp
              from pd(3) r have "wf_stack rooted (st @ [''..''])" by simp
              from ih [OF this] r have
                "clean_loop False (ddlen False (st @ [''..''])) (outbuf False (st @ [''..''])) ?r
                   = outbuf False (foldl (push False) (st @ [''..'']) (elements ?r))"
                by simp
              then have
                "clean_loop False
                   (length ((if length (outbuf False st) > 0 then outbuf False st @ ''/''
                             else outbuf False st) @ ''..''))
                   ((if length (outbuf False st) > 0 then outbuf False st @ ''/''
                     else outbuf False st) @ ''..'') ?r
                   = outbuf False (foldl (push False) (st @ [''..'']) (elements ?r))"
                by (simp only: pd(2) pd(1))
              moreover have nr: "\<not> rooted" using r by simp
              moreover have rf: "rooted = False" using r by simp
              ultimately show ?thesis
                unfolding Cons cl fs pu
                by (simp only: if_not_P [OF nd] if_P [OF True] rf if_not_P [OF le]
                      not_False_eq_True if_True)
            qed
          qed
        next
          case ndd: False
          note re = real_element [OF False, of cs']
          note pr = push_real_stack [OF wf re nd ndd]
          have ne: "\<not> (?e = [] \<or> ?e = ''.'')" using nd by simp
          have pu: "push rooted st ?e = st @ [?e]"
            unfolding push_def by (simp only: if_not_P [OF ne] if_not_P [OF ndd])
          from ih [OF pr(3)] have
            "clean_loop rooted (ddlen rooted st)
               ((if rooted \<and> length (outbuf rooted st) \<noteq> 1
                    \<or> \<not> rooted \<and> length (outbuf rooted st) \<noteq> 0
                 then outbuf rooted st @ ''/'' else outbuf rooted st) @ ?e) ?r
               = outbuf rooted (foldl (push rooted) (st @ [?e]) (elements ?r))"
            by (simp only: pr(1) pr(2))
          then show ?thesis
            unfolding Cons cl fs pu
            by (simp only: if_not_P [OF nd] if_not_P [OF ndd])
        qed
      qed
    qed
  qed
qed

lemma wf_stack_prefix:
  assumes "wf_stack rooted (xs @ ys)"
  shows "wf_stack rooted xs"
proof -
  have "set (dropWhile (\<lambda>e. e = ''..'') xs) \<subseteq> set (dropWhile (\<lambda>e. e = ''..'') (xs @ ys))"
  proof (cases "dropWhile (\<lambda>e. e = ''..'') xs = []")
    case True
    then show ?thesis by (simp only: list.set(1) empty_subsetI)
  next
    case False
    then obtain x where x: "x \<in> set xs" "\<not> x = ''..''"
      by (auto simp: dropWhile_eq_Nil_conv)
    have "dropWhile (\<lambda>e. e = ''..'') (xs @ ys) = dropWhile (\<lambda>e. e = ''..'') xs @ ys"
      by (rule dropWhile_append1 [of x xs "\<lambda>e. e = ''..''" ys, OF x])
    then show ?thesis by simp
  qed
  with assms show ?thesis
    unfolding wf_stack_def by auto
qed

lemma wf_push:
  assumes wf: "wf_stack rooted st" and e: "\<forall>x \<in> set e. x \<noteq> CHR ''/''"
  shows "wf_stack rooted (push rooted st e)"
proof (cases "e = [] \<or> e = ''.''")
  case True
  with wf show ?thesis by (simp add: push_def)
next
  case skip: False
  show ?thesis
  proof (cases "e = ''..''")
    case True
    show ?thesis
    proof (cases "st \<noteq> [] \<and> last st \<noteq> ''..''")
      case top: True
      then have "st = butlast st @ [last st]" by simp
      with wf have "wf_stack rooted (butlast st @ [last st])" by simp
      then have "wf_stack rooted (butlast st)" by (rule wf_stack_prefix)
      with True top show ?thesis by (simp add: push_def)
    next
      case top: False
      then have t: "st = [] \<or> last st = ''..''" by blast
      show ?thesis
      proof (cases rooted)
        case True
        with \<open>e = ''..''\<close> top wf show ?thesis by (auto simp: push_def)
      next
        case False
        with wf have "wf_stack False st" by simp
        from push_dotdot_stack(3) [OF this t] False \<open>e = ''..''\<close> top show ?thesis
          by (auto simp: push_def)
      qed
    qed
  next
    case False
    from skip have "e \<noteq> []" "e \<noteq> ''.''" by simp_all
    from push_real_stack(3) [OF wf this(1) e this(2) False] skip False show ?thesis
      by (simp add: push_def)
  qed
qed

lemma elements_no_sep: "\<forall>e \<in> set (elements cs). \<forall>x \<in> set e. x \<noteq> CHR ''/''"
proof (induction cs)
  case Nil
  show ?case by simp
next
  case (Cons c cs)
  then show ?case by (cases "elements cs") (auto split: if_splits)
qed

lemma wf_foldl_push:
  "wf_stack rooted st \<Longrightarrow> \<forall>e \<in> set es. \<forall>x \<in> set e. x \<noteq> CHR ''/'' \<Longrightarrow>
     wf_stack rooted (foldl (push rooted) st es)"
  by (induction es arbitrary: st) (simp_all add: wf_push)

lemma wf_stack_Nil [simp]: "wf_stack rooted []"
  by (simp add: wf_stack_def)

definition stack_of :: "string \<Rightarrow> string list" where
  "stack_of p = foldl (push (p \<noteq> [] \<and> hd p = CHR ''/'')) [] (elements p)"

lemma wf_stack_of: "wf_stack (p \<noteq> [] \<and> hd p = CHR ''/'') (stack_of p)"
  unfolding stack_of_def by (rule wf_foldl_push) (simp_all add: elements_no_sep)

lemma Clean_elements:
  "Clean p =
     (if p \<noteq> [] \<and> hd p = CHR ''/'' then CHR ''/'' # strings_Join (stack_of p)
      else if stack_of p = [] then ''.'' else strings_Join (stack_of p))"
proof (cases p)
  case Nil
  then show ?thesis by (simp add: Clean_def stack_of_def)
next
  case (Cons c cs)
  show ?thesis
  proof (cases "c = CHR ''/''")
    case True
    have "clean_loop True (ddlen True []) (outbuf True []) cs
            = outbuf True (foldl (push True) [] (elements cs))"
      by (rule clean_loop_refines) simp
    then have "clean_loop True 1 ''/'' cs = CHR ''/'' # strings_Join (foldl (push True) [] (elements cs))"
      by (simp add: ddlen_def outbuf_def)
    with Cons True show ?thesis
      by (simp add: Clean_def stack_of_def)
  next
    case False
    have "clean_loop False (ddlen False []) (outbuf False []) p
            = outbuf False (foldl (push False) [] (elements p))"
      by (rule clean_loop_refines) simp
    then have c: "clean_loop False 0 [] p = strings_Join (foldl (push False) [] (elements p))"
      by (simp add: ddlen_def outbuf_def)
    from Cons False have r: "(p \<noteq> [] \<and> hd p = CHR ''/'') = False" by simp
    from wf_stack_of [of p] have "wf_stack False (stack_of p)" by (simp only: r)
    from Join_empty_iff [OF this] c r Cons False show ?thesis
      by (simp add: Clean_def stack_of_def Let_def)
  qed
qed

lemma elements_plain:
  "\<forall>x \<in> set e. x \<noteq> CHR ''/'' \<Longrightarrow> elements e = [e]"
  by (induction e) auto

lemma elements_append_sep:
  "\<forall>x \<in> set e. x \<noteq> CHR ''/'' \<Longrightarrow> elements (e @ CHR ''/'' # cs) = e # elements cs"
  by (induction e) auto

lemma elements_Join:
  "st \<noteq> [] \<Longrightarrow> \<forall>e \<in> set st. \<forall>x \<in> set e. x \<noteq> CHR ''/'' \<Longrightarrow>
     elements (strings_Join st) = st"
proof (induction st rule: strings_Join.induct)
  case 1
  then show ?case by simp
next
  case (2 e)
  then show ?case by (simp add: elements_plain)
next
  case (3 e v va)
  then show ?case by (simp add: elements_append_sep)
qed

lemma push_real:
  "x \<noteq> [] \<Longrightarrow> x \<noteq> ''.'' \<Longrightarrow> x \<noteq> ''..'' \<Longrightarrow> push rooted st x = st @ [x]"
  by (simp add: push_def)

lemma push_dotdot_top:
  "st = [] \<or> last st = ''..'' \<Longrightarrow> push False st ''..'' = st @ [''..'']"
  by (auto simp: push_def)

lemma foldl_push_wf:
  "wf_stack rooted st \<Longrightarrow> foldl (push rooted) [] st = st"
proof (induction st rule: rev_induct)
  case Nil
  show ?case by simp
next
  case (snoc x xs)
  from snoc.prems have wfx: "wf_stack rooted xs" by (rule wf_stack_prefix)
  with snoc.IH have f: "foldl (push rooted) [] (xs @ [x]) = push rooted xs x" by simp
  from snoc.prems have x: "x \<noteq> []" "x \<noteq> ''.''" by (simp_all add: wf_stack_def)
  show ?case
  proof (cases "x = ''..''")
    case False
    from push_real [OF x False] f show ?thesis by (simp only:)
  next
    case True
    from snoc.prems True have nr: "\<not> rooted" by (auto simp: wf_stack_def)
    from True have "last (xs @ [x]) = ''..''" by simp
    with wf_stack_all_dotdot [OF snoc.prems]
    have "takeWhile (\<lambda>e. e = ''..'') (xs @ [x]) = xs @ [x]" by blast
    then have "\<forall>e \<in> set xs. e = ''..''"
      by (simp only: takeWhile_eq_all_conv) simp
    then have "xs = [] \<or> last xs = ''..''"
      using last_in_set [of xs] by blast
    from push_dotdot_top [OF this] True nr f show ?thesis by simp
  qed
qed

lemma hd_Join:
  "st \<noteq> [] \<Longrightarrow> hd st \<noteq> [] \<Longrightarrow> hd (strings_Join st) = hd (hd st)"
  by (induction st rule: strings_Join.induct) auto

lemma Join_last_nonempty:
  "st \<noteq> [] \<Longrightarrow> last st \<noteq> [] \<Longrightarrow> strings_Join st \<noteq> []"
  by (induction st rule: strings_Join.induct) auto

lemma last_Join:
  "st \<noteq> [] \<Longrightarrow> last st \<noteq> [] \<Longrightarrow> last (strings_Join st) = last (last st)"
proof (induction st rule: strings_Join.induct)
  case 1
  then show ?case by simp
next
  case (2 e)
  then show ?case by simp
next
  case (3 e v va)
  then have "strings_Join (v # va) \<noteq> []"
    by (intro Join_last_nonempty) simp_all
  with 3 show ?case by simp
qed

lemma wf_stack_Join_ends:
  assumes wf: "wf_stack rooted st" and ne: "st \<noteq> []"
  shows "strings_Join st \<noteq> []"
    and "hd (strings_Join st) \<noteq> CHR ''/''"
    and "last (strings_Join st) \<noteq> CHR ''/''"
proof -
  from Join_empty_iff [OF wf] ne show "strings_Join st \<noteq> []" by simp
  from ne have h: "hd st \<in> set st" and l: "last st \<in> set st" by simp_all
  with wf have hn: "hd st \<noteq> []" and ln: "last st \<noteq> []"
    and hs: "\<forall>x \<in> set (hd st). x \<noteq> CHR ''/''" and ls: "\<forall>x \<in> set (last st). x \<noteq> CHR ''/''"
    by (auto simp: wf_stack_def)
  from hn hs have "hd (hd st) \<noteq> CHR ''/''" using hd_in_set [OF hn] by blast
  with hd_Join [OF ne hn] show "hd (strings_Join st) \<noteq> CHR ''/''" by simp
  from ln ls have "last (last st) \<noteq> CHR ''/''" using last_in_set [OF ln] by blast
  with last_Join [OF ne ln] show "last (strings_Join st) \<noteq> CHR ''/''" by simp
qed

lemma stack_of_Join:
  assumes wf: "wf_stack False st" and ne: "st \<noteq> []"
  shows "stack_of (strings_Join st) = st"
proof -
  from wf_stack_Join_ends [OF wf ne]
  have r: "(strings_Join st \<noteq> [] \<and> hd (strings_Join st) = CHR ''/'') = False" by simp
  from wf have "\<forall>e \<in> set st. \<forall>x \<in> set e. x \<noteq> CHR ''/''" by (simp add: wf_stack_def)
  from elements_Join [OF ne this] foldl_push_wf [OF wf] show ?thesis
    unfolding stack_of_def r by simp
qed

lemma Clean_Join:
  assumes wf: "wf_stack False st" and ne: "st \<noteq> []"
  shows "Clean (strings_Join st) = strings_Join st"
  using wf_stack_Join_ends [OF wf ne] stack_of_Join [OF wf ne] ne
  by (simp add: Clean_elements)

lemma elements_chars: "\<forall>e \<in> set (elements cs). set e \<subseteq> set cs"
proof (induction cs)
  case Nil
  show ?case by simp
next
  case (Cons c cs)
  then show ?case by (cases "elements cs") (auto split: if_splits)
qed

lemma set_push: "set (push rooted st e) \<subseteq> insert e (set st)"
  by (auto simp: push_def dest: in_set_butlastD)

lemma set_foldl_push: "set (foldl (push rooted) st es) \<subseteq> set st \<union> set es"
proof (induction es arbitrary: st)
  case Nil
  show ?case by simp
next
  case (Cons e es)
  from Cons [of "push rooted st e"] set_push [of rooted st e] show ?case by auto
qed

lemma stack_of_chars:
  assumes "e \<in> set (stack_of p)"
  shows "set e \<subseteq> set p"
proof -
  from assms set_foldl_push [of "p \<noteq> [] \<and> hd p = CHR ''/''" "[]" "elements p"]
  have "e \<in> set (elements p)" by (auto simp: stack_of_def)
  with elements_chars show ?thesis by blast
qed

lemma set_Join: "set (strings_Join st) \<subseteq> insert (CHR ''/'') (\<Union> (set ` set st))"
  by (induction st rule: strings_Join.induct) auto

lemma TrimPrefix_noop: "q = [] \<or> hd q \<noteq> CHR ''/'' \<Longrightarrow> TrimPrefix q ''/'' = q"
  by (cases q) (auto simp: TrimPrefix_def HasPrefix_def)

lemma TrimSuffix_noop: "q = [] \<or> last q \<noteq> CHR ''/'' \<Longrightarrow> TrimSuffix q ''/'' = q"
  by (cases q rule: rev_cases) (auto simp: TrimSuffix_def HasSuffix_def)

lemma ReplaceAll_noop: "old \<notin> set s \<Longrightarrow> ReplaceAll s old new = s"
  unfolding ReplaceAll_def by (induction s) auto

lemma backslash_chars [simp]: "backslash \<noteq> CHR ''/''" "backslash \<noteq> CHR ''.''"
  by (simp_all add: backslash_def)

lemma cleanPath_Join:
  assumes wf: "wf_stack False st" and ne: "st \<noteq> []"
    and nb: "\<forall>e \<in> set st. backslash \<notin> set e"
  shows "cleanPath (strings_Join st) = strings_Join st"
proof -
  note ends = wf_stack_Join_ends [OF wf ne]
  from nb set_Join [of st] have "backslash \<notin> set (strings_Join st)" by auto
  with ends Clean_Join [OF wf ne] show ?thesis
    by (simp add: cleanPath_def TrimPrefix_noop TrimSuffix_noop ReplaceAll_noop)
qed

lemma cleanPath_dot: "cleanPath ''.'' = ''.''"
  by (simp add: cleanPath_def Clean_def clean_loop.simps TrimPrefix_def TrimSuffix_def
        HasPrefix_def HasSuffix_def ReplaceAll_def backslash_def)

lemma wf_stack_weaken: "wf_stack rooted st \<Longrightarrow> wf_stack False st"
  by (simp add: wf_stack_def)

lemma cleanPath_cases:
  assumes nb: "backslash \<notin> set p"
  shows "cleanPath p = [] \<or> cleanPath p = ''.''
         \<or> (\<exists>st. wf_stack False st \<and> st \<noteq> [] \<and> (\<forall>e \<in> set st. backslash \<notin> set e)
                  \<and> cleanPath p = strings_Join st)"
proof (cases "p = []")
  case True
  then show ?thesis by (simp add: cleanPath_def)
next
  case False
  let ?st = "stack_of p"
  from wf_stack_of [of p] have wf: "wf_stack False ?st" by (rule wf_stack_weaken)
  from nb stack_of_chars have nbs: "\<forall>e \<in> set ?st. backslash \<notin> set e" by blast
  with set_Join [of ?st] have nbj: "backslash \<notin> set (strings_Join ?st)" by auto
  show ?thesis
  proof (cases "?st = []")
    case True
    with False have "cleanPath p = [] \<or> cleanPath p = ''.''"
      by (auto simp: cleanPath_def Clean_elements TrimPrefix_def TrimSuffix_def HasPrefix_def
            HasSuffix_def ReplaceAll_def backslash_def)
    then show ?thesis by blast
  next
    case ne: False
    note ends = wf_stack_Join_ends [OF wf ne]
    have "cleanPath p = strings_Join ?st"
    proof (cases "hd p = CHR ''/''")
      case True
      with False have "Clean p = CHR ''/'' # strings_Join ?st"
        by (simp add: Clean_elements)
      moreover have "TrimPrefix (CHR ''/'' # strings_Join ?st) ''/'' = strings_Join ?st"
        by (simp add: TrimPrefix_def HasPrefix_def)
      ultimately show ?thesis
        using False ends nbj
        by (simp add: cleanPath_def TrimSuffix_noop ReplaceAll_noop)
    next
      case nr: False
      with ne have "Clean p = strings_Join ?st"
        by (simp add: Clean_elements)
      with False ends nbj show ?thesis
        by (simp add: cleanPath_def TrimPrefix_noop TrimSuffix_noop ReplaceAll_noop)
    qed
    with wf ne nbs show ?thesis by blast
  qed
qed

lemma cleanPath_idempotent_without_backslash:
  assumes "backslash \<notin> set p"
  shows "cleanPath (cleanPath p) = cleanPath p"
  using cleanPath_cases [OF assms]
  by (auto simp: cleanPath_dot cleanPath_Join) (simp add: cleanPath_def)

definition proper_segment :: "string \<Rightarrow> bool" where
  "proper_segment e \<longleftrightarrow> e \<noteq> [] \<and> e \<noteq> ''.'' \<and> e \<noteq> ''..'' \<and> CHR ''/'' \<notin> set e"

definition proper_path :: "string \<Rightarrow> bool" where
  "proper_path p \<longleftrightarrow> list_all proper_segment (elements p)"

lemma Join_elements: "strings_Join (elements cs) = cs"
proof (induction cs)
  case Nil
  show ?case by simp
next
  case (Cons c cs)
  then show ?case
    by (cases "elements cs") (auto simp: strings_Join_Cons split: if_splits)
qed

lemma wf_stack_proper:
  "list_all proper_segment st \<Longrightarrow> wf_stack rooted st"
proof -
  assume a: "list_all proper_segment st"
  then have "\<forall>e \<in> set st. e \<noteq> ''..''" by (auto simp: list_all_iff proper_segment_def)
  then have "''..'' \<notin> set st" by blast
  moreover have "set (dropWhile (\<lambda>e. e = ''..'') st) \<subseteq> set st" by (rule set_dropWhileD [THEN subsetI])
  ultimately show ?thesis
    using a unfolding wf_stack_def list_all_iff proper_segment_def by auto
qed

lemma Clean_segments:
  assumes p: "list_all proper_segment st" and ne: "st \<noteq> []"
  shows "Clean (strings_Join st) = strings_Join st"
  by (rule Clean_Join [OF wf_stack_proper [OF p] ne])

lemma Clean_proper: "proper_path p \<Longrightarrow> Clean p = p"
  using Clean_segments [of "elements p"] by (simp add: proper_path_def Join_elements)

lemma proper_path_not_Nil: "proper_path p \<Longrightarrow> p \<noteq> []"
  by (auto simp: proper_path_def proper_segment_def)

lemma proper_segment_path:
  assumes "proper_segment e"
  shows "proper_path e"
proof -
  from assms have "\<forall>x \<in> set e. x \<noteq> CHR ''/''" by (auto simp: proper_segment_def)
  from elements_plain [OF this] assms show ?thesis by (simp add: proper_path_def)
qed

lemma Clean_trailing_sep:
  assumes p: "list_all proper_segment st" and ne: "st \<noteq> []"
  shows "Clean (strings_Join st @ ''/'') = strings_Join st"
proof -
  let ?q = "strings_Join st @ ''/''"
  note wf = wf_stack_proper [OF p, of False]
  note ends = wf_stack_Join_ends [OF wf ne]
  from ends have r: "(?q \<noteq> [] \<and> hd ?q = CHR ''/'') = False" by simp
  have q: "?q = strings_Join (st @ [[]])"
    using ne by (simp add: strings_Join_snoc)
  from wf have "\<forall>e \<in> set (st @ [[]]). \<forall>x \<in> set e. x \<noteq> CHR ''/''"
    by (simp add: wf_stack_def)
  then have "elements (strings_Join (st @ [[]])) = st @ [[]]"
    by (intro elements_Join) simp_all
  with q have "elements ?q = st @ [[]]" by simp
  then have "stack_of ?q = st"
    unfolding stack_of_def r by (simp add: foldl_push_wf [OF wf])
  with ne r show ?thesis
    by (simp only: Clean_elements) simp
qed

lemma Join_snoc_split:
  "st \<noteq> [] \<Longrightarrow> strings_Join (st @ [x]) = strings_Join st @ CHR ''/'' # x"
  by (simp add: strings_Join_snoc)

lemma Dir_segments:
  assumes p: "list_all proper_segment (st @ [x])"
  shows "Dir (strings_Join (st @ [x])) = (if st = [] then ''.'' else strings_Join st)"
proof -
  from p have x: "\<forall>c \<in> set x. c \<noteq> CHR ''/''" and ps: "list_all proper_segment st"
    by (auto simp: proper_segment_def)
  then have dx: "dropWhile (\<lambda>c. c \<noteq> CHR ''/'') (rev x) = []" by simp
  show ?thesis
  proof (cases "st = []")
    case True
    with dx show ?thesis by (simp add: Dir_def Clean_def)
  next
    case False
    from x have "dropWhile (\<lambda>c. c \<noteq> CHR ''/'') (rev x @ CHR ''/'' # rev (strings_Join st))
                   = CHR ''/'' # rev (strings_Join st)"
      by (subst dropWhile_append2) auto
    with False Clean_trailing_sep [OF ps False] show ?thesis
      by (simp add: Dir_def Join_snoc_split)
  qed
qed

lemma Base_segments:
  assumes p: "list_all proper_segment (st @ [x])"
  shows "Base (strings_Join (st @ [x])) = x"
proof -
  from p have x: "\<forall>c \<in> set x. c \<noteq> CHR ''/''" and ne: "x \<noteq> []"
    by (auto simp: proper_segment_def)
  from ne x have l: "last x \<noteq> CHR ''/''" using last_in_set [OF ne] by blast
  have j: "strings_Join (st @ [x]) = (if st = [] then x else strings_Join st @ CHR ''/'' # x)"
    by (simp add: strings_Join_snoc)
  from ne l have d: "dropWhile (\<lambda>c. c = CHR ''/'') (rev x @ ys) = rev x @ ys" for ys
    by (cases x rule: rev_cases) auto
  from x have t1: "takeWhile (\<lambda>c. c \<noteq> CHR ''/'') (rev x) = rev x" by simp
  from x have t2: "takeWhile (\<lambda>c. c \<noteq> CHR ''/'') (rev x @ CHR ''/'' # ys) = rev x" for ys
    by (subst takeWhile_append2) auto
  show ?thesis
  proof (cases "st = []")
    case True
    from d [of "[]"] have d0: "dropWhile (\<lambda>c. c = CHR ''/'') (rev x) = rev x" by simp
    from True ne show ?thesis by (simp add: Base_def j Let_def d0 t1)
  next
    case False
    from False ne show ?thesis
      by (simp add: Base_def j Let_def d [of "CHR ''/'' # rev (strings_Join st)"] t2)
  qed
qed

lemma Join_two_proper:
  assumes t: "proper_path t" and x: "proper_segment x"
  shows "Join [t, x] = t @ ''/'' @ x"
proof -
  from t have ne: "t \<noteq> []" by (rule proper_path_not_Nil)
  from t x have p: "list_all proper_segment (elements t @ [x])"
    by (simp add: proper_path_def)
  from Clean_segments [OF p] have "Clean (strings_Join (elements t @ [x])) = strings_Join (elements t @ [x])"
    by simp
  then have "Clean (t @ CHR ''/'' # x) = t @ CHR ''/'' # x"
    by (simp add: Join_snoc_split Join_elements)
  with ne show ?thesis by simp
qed

lemma Join_root_proper:
  assumes x: "proper_segment x"
  shows "Join [[], x] = x"
  using Clean_proper [OF proper_segment_path [OF x]] x by (simp add: proper_segment_def)

lemma proper_path_split:
  assumes "proper_path p"
  shows "list_all proper_segment (butlast (elements p) @ [last (elements p)])"
    and "strings_Join (butlast (elements p) @ [last (elements p)]) = p"
  using assms by (simp_all add: proper_path_def Join_elements)

lemma Dir_proper:
  "proper_path p \<Longrightarrow>
     Dir p = (if butlast (elements p) = [] then ''.'' else strings_Join (butlast (elements p)))"
  using Dir_segments [OF proper_path_split(1)] proper_path_split(2) by metis

lemma Base_proper: "proper_path p \<Longrightarrow> Base p = last (elements p)"
  using Base_segments [OF proper_path_split(1)] proper_path_split(2) by metis

section \<open>Properties of the session store and the authorization gate\<close>

text \<open>
  C9.  Session round trip.  When the entropy source delivers, \<open>CreateSession\<close> stores
  the session under the generated token \<open>t\<close> and hands \<open>t\<close> out in the
  \<open>session_token\<close> cookie; \<open>GetSession\<close> on a request carrying \<open>t\<close> returns a
  session with exactly that username and role; after \<open>ClearSession\<close> on such a request
  \<open>GetSession\<close> returns nothing.  On a token the store does not know, \<open>GetSession\<close>
  returns nothing (a value, not an error) and \<open>ClearSession\<close> leaves the store as it
  is; clearing twice is clearing once.
\<close>

theorem session_round_trip:
  "(GenerateSessionToken rnd = Inr t \<longrightarrow>
      (\<exists>ss' w'. CreateSession ss w username role keepLoggedIn cfg rnd now = Inr (ss', w')
         \<and> map_of (map (\<lambda>c. (Name c, Value c)) (drop (length w) w')) ''session_token'' = Some t
         \<and> (\<forall>r. Request_Cookie r ''session_token'' = Some t \<longrightarrow>
               (\<exists>s. GetSession ss' r = Some s \<and> Username s = username \<and> Role s = role)
               \<and> (\<forall>w2 cfg2. GetSession (fst (ClearSession ss' w2 r cfg2)) r = None))))
   \<and> (\<forall>r u ss0 w0. Request_Cookie r ''session_token'' = Some u \<and> ss0 u = None \<longrightarrow>
         GetSession ss0 r = None \<and> fst (ClearSession ss0 w0 r cfg) = ss0)
   \<and> (\<forall>r ss0 w0 w1. fst (ClearSession (fst (ClearSession ss0 w0 r cfg)) w1 r cfg)
                        = fst (ClearSession ss0 w0 r cfg))"
  by (auto simp: CreateSession_def GetSession_def ClearSession_def Let_def
           split: option.splits)

theorem session_round_trip_witness:
  "GenerateSessionToken (Inr ''0123456789abcdefghijklmnopqrstuv'')
     = Inr ''MDEyMzQ1Njc4OWFiY2RlZmdoaWprbG1ub3BxcnN0dXY=''
   \<and> (\<exists>ss' w'.
        CreateSession Map.empty [] ''alice'' ''editor'' False wiki_cfg
          (Inr ''0123456789abcdefghijklmnopqrstuv'') 0 = Inr (ss', w')
        \<and> (\<exists>s. GetSession ss' (with_token ''MDEyMzQ1Njc4OWFiY2RlZmdoaWprbG1ub3BxcnN0dXY='')
                  = Some s \<and> Username s = ''alice'' \<and> Role s = ''editor'')
        \<and> GetSession
             (fst (ClearSession ss' []
                     (with_token ''MDEyMzQ1Njc4OWFiY2RlZmdoaWprbG1ub3BxcnN0dXY='') wiki_cfg))
             (with_token ''MDEyMzQ1Njc4OWFiY2RlZmdoaWprbG1ub3BxcnN0dXY='') = None)
   \<and> GetSession Map.empty (with_token ''unknown'') = None
   \<and> fst (ClearSession Map.empty [] (with_token ''unknown'') wiki_cfg) = Map.empty"
  using session_round_trip
    [where rnd = "Inr ''0123456789abcdefghijklmnopqrstuv''"
       and t = "''MDEyMzQ1Njc4OWFiY2RlZmdoaWprbG1ub3BxcnN0dXY=''"
       and ss = Map.empty and w = "[]" and username = "''alice''"
       and role = "''editor''" and keepLoggedIn = False and cfg = wiki_cfg and now = 0]
  by (simp add: GenerateSessionToken_def sextet_def encodeURL_def CreateSession_def
        GetSession_def ClearSession_def Request_Cookie_def with_token_def)

text \<open>
  C10.  When the wiki is not private, \<open>RequireAuth\<close> is true for every request and
  every session store, so its answer does not depend on the store; when the wiki is
  private, it is true exactly when the request has a session.
\<close>

theorem RequireAuth_gate:
  "(\<not> Wiki_Private cfg \<longrightarrow>
      (\<forall>ss ss' r. RequireAuth ss r cfg \<and> RequireAuth ss r cfg = RequireAuth ss' r cfg))
   \<and> (Wiki_Private cfg \<longrightarrow> (\<forall>ss r. RequireAuth ss r cfg = (GetSession ss r \<noteq> None)))"
  by (simp add: RequireAuth_def)

theorem RequireAuth_gate_witness:
  "RequireAuth Map.empty no_cookies wiki_cfg
   \<and> \<not> RequireAuth Map.empty no_cookies (wiki_cfg\<lparr>Wiki_Private := True\<rparr>)"
  using RequireAuth_gate [of wiki_cfg] RequireAuth_gate [of "wiki_cfg\<lparr>Wiki_Private := True\<rparr>"]
  by (simp add: wiki_cfg_def GetSession_def Request_Cookie_def no_cookies_def)

section \<open>Properties of the relocation handler\<close>

subsection \<open>Responses\<close>

lemma status_send [simp]:
  "StatusCode (sendJSONResponse ok msg code np op) = code"
  "Success (Payload (sendJSONResponse ok msg code np op)) = ok"
  "NewPath (Payload (sendJSONResponse ok msg code np op)) = np"
  "OldPath (Payload (sendJSONResponse ok msg code np op)) = op"
  by (simp_all add: sendJSONResponse_def)

lemma mirrorAndReply_response:
  "fst (mirrorAndReply ops cfg moveReq newPath st)
     = sendJSONResponse True ''Document moved successfully'' 200 newPath (SourcePath moveReq)"
  by (simp add: mirrorAndReply_def Let_def)

lemma moveDocument_rejected:
  assumes noop: "os_MkdirAll ops fs (Dir fullSourcePath) = (None, fs)"
    and run: "moveDocument ops cfg moveReq newPath fullSourcePath fullTargetPath (logs, fs)
                = (resp, logs', fs')"
    and rej: "StatusCode resp = 400 \<or> StatusCode resp = 409"
  shows "fs' = fs"
proof (cases "os_MkdirAll ops fs (Dir fullTargetPath)")
  case (Pair e fs1)
  show ?thesis
  proof (cases e)
    case (Some err)
    with Pair run rej show ?thesis by (auto simp: moveDocument_def)
  next
    case None
    show ?thesis
    proof (cases "fullSourcePath = fullTargetPath")
      case True
      with Pair None noop have "fs1 = fs" by simp
      with Pair None True run show ?thesis by (auto simp: moveDocument_def Let_def)
    next
      case False
      obtain e2 fs2 where rn: "os_Rename ops fs1 fullSourcePath fullTargetPath = (e2, fs2)"
        by (cases "os_Rename ops fs1 fullSourcePath fullTargetPath")
      show ?thesis
      proof (cases e2)
        case (Some err)
        with Pair None False rn run rej show ?thesis by (auto simp: moveDocument_def Let_def)
      next
        case n2: None
        from Pair None False rn n2 run
        have "resp = fst (mirrorAndReply ops cfg moveReq newPath
                (logs @ [''Moving document from '' @ fullSourcePath @ '' to '' @ fullTargetPath], fs2))"
          by (auto simp: moveDocument_def Let_def)
        with rej show ?thesis by (simp add: mirrorAndReply_response)
      qed
    qed
  qed
qed

lemma planAndMove_rejected:
  assumes noop: "\<forall>p d. os_Stat ops fs p = Inr d \<longrightarrow> os_MkdirAll ops fs (Dir p) = (None, fs)"
    and run: "planAndMove ops cfg moveReq fs = (resp, logs', fs')"
    and rej: "StatusCode resp = 400 \<or> StatusCode resp = 409"
  shows "fs' = fs"
proof -
  define src where "src = Join [Join [Wiki_RootDir cfg, Wiki_DocumentsDir cfg], SourcePath moveReq]"
  show ?thesis
  proof (cases "os_Stat ops fs src")
    case (Inl err)
    with run show ?thesis
      by (auto simp: planAndMove_def Let_def src_def split: if_splits)
  next
    case (Inr d)
    with noop have mk: "os_MkdirAll ops fs (Dir src) = (None, fs)" by blast
    from run Inr show ?thesis
      unfolding planAndMove_def Let_def src_def [symmetric]
      by (auto split: option.splits dest: moveDocument_rejected [OF mk _ rej])
  qed
qed


lemma checkConflict_document_exists:
  assumes "fullTargetPath \<noteq> fullSourcePath"
    and "os_Stat ops fs (Join [fullTargetPath, ''document.md'']) = Inr d"
  shows "Dir fullSourcePath = Dir fullTargetPath \<Longrightarrow>
           checkConflict ops fs moveReq fullSourcePath fullTargetPath
             = Some ''A document already exists at the target location''"
    and "os_Stat ops fs fullTargetPath = Inr True \<Longrightarrow>
         os_ReadDir ops fs fullTargetPath = Inr (e # es) \<Longrightarrow>
           checkConflict ops fs moveReq fullSourcePath fullTargetPath \<noteq> None"
  using assms by (simp_all add: checkConflict_def Let_def)

subsection \<open>The session check\<close>

text \<open>
  C1.  The handler asks only whether the request has a session; the role is not
  looked at.  A request with the session of a viewer, which \<open>RequireRole\<close> does not
  accept as an editor, is answered 200 and the document is moved.
\<close>

theorem viewer_session_relocates:
  "GetSession wiki_sessions (post ''tok-viewer'' ''alpha'' [] ''beta'')
     = Some \<lparr>Username = ''vera'', Role = ''viewer'', CreatedAt = 0\<rparr>
   \<and> \<not> RequireRole wiki_sessions (post ''tok-viewer'' ''alpha'' [] ''beta'') ''editor''
   \<and> StatusCode (fst (MoveDocumentHandler mem_os wiki_sessions wiki_cfg
                        (post ''tok-viewer'' ''alpha'' [] ''beta'') wiki_tree)) = 200
   \<and> mem_Stat (snd (snd (MoveDocumentHandler mem_os wiki_sessions wiki_cfg
                        (post ''tok-viewer'' ''alpha'' [] ''beta'') wiki_tree)))
        ''data/documents/beta/document.md'' = Inr False"
  by code_simp


subsection \<open>Conflicts\<close>

text \<open>
  C3.  A document exists at the resolved target, the source's last element and the new
  slug differ only in case, and the parent directories differ: the first check lets the
  request pass, the check of the target directory that follows finds \<open>document.md\<close>
  in it and answers 409.
\<close>

theorem cross_directory_case_only_rename_conflicts:
  "mem_Stat wiki_tree ''data/documents/Archive/Test/document.md'' = Inr False
   \<and> ToLower (Base ''Projects/test'') = ToLower ''Test''
   \<and> Dir ''data/documents/Projects/test'' \<noteq> Dir ''data/documents/Archive/Test''
   \<and> fst (MoveDocumentHandler mem_os wiki_sessions wiki_cfg
             (post ''tok-editor'' ''Projects/test'' ''Archive'' ''Test'') wiki_tree)
       = sendJSONResponse False ''Target directory already exists and is not empty'' 409 [] []"
  by code_simp


subsection \<open>Rejected requests and the filesystem\<close>

text \<open>
  C4.  A request answered 400 or 409 leaves the filesystem as it was.  The same-path
  guard comes after \<open>MkdirAll\<close> of the target's parent, which there is the parent of
  the source, a path \<open>Stat\<close> has just found: the operating system is assumed to
  leave the tree alone when asked to create the directory of an existing path.
\<close>

theorem rejection_leaves_filesystem:
  assumes noop: "\<forall>p d. os_Stat ops fs p = Inr d \<longrightarrow> os_MkdirAll ops fs (Dir p) = (None, fs)"
    and run: "MoveDocumentHandler ops ss cfg r fs = (resp, logs, fs')"
    and rej: "StatusCode resp = 400 \<or> StatusCode resp = 409"
  shows "fs' = fs"
  using run
  unfolding MoveDocumentHandler_def Let_def
  by (auto split: if_splits option.splits dest: planAndMove_rejected [OF noop _ rej])

lemma wiki_tree_noop:
  "\<forall>p d. os_Stat mem_os wiki_tree p = Inr d \<longrightarrow>
      os_MkdirAll mem_os wiki_tree (Dir p) = (None, wiki_tree)"
proof (intro allI impI)
  fix p d
  assume "os_Stat mem_os wiki_tree p = Inr d"
  then have "map_of wiki_tree p = Some d"
    by (simp add: mem_os_def mem_Stat_def split: option.splits)
  then have "p \<in> set (map fst wiki_tree)"
    by (metis map_of_SomeD image_eqI fst_conv set_map)
  moreover have "list_all (\<lambda>p. os_MkdirAll mem_os wiki_tree (Dir p) = (None, wiki_tree))
                   (map fst wiki_tree)"
    by code_simp
  ultimately show "os_MkdirAll mem_os wiki_tree (Dir p) = (None, wiki_tree)"
    by (auto simp: list_all_iff)
qed


theorem rejection_leaves_filesystem_witness:
  "StatusCode (fst (MoveDocumentHandler mem_os wiki_sessions wiki_cfg
                      (post ''tok-editor'' ''alpha'' [] ''alpha'') wiki_tree)) = 400
   \<and> Message (Payload (fst (MoveDocumentHandler mem_os wiki_sessions wiki_cfg
                      (post ''tok-editor'' ''alpha'' [] ''alpha'') wiki_tree)))
       = ''Source and target paths are the same''
   \<and> snd (snd (MoveDocumentHandler mem_os wiki_sessions wiki_cfg
                      (post ''tok-editor'' ''alpha'' [] ''alpha'') wiki_tree)) = wiki_tree"
proof -
  let ?X = "MoveDocumentHandler mem_os wiki_sessions wiki_cfg
              (post ''tok-editor'' ''alpha'' [] ''alpha'') wiki_tree"
  have st: "StatusCode (fst ?X) = 400"
    by code_simp
  have msg: "Message (Payload (fst ?X)) = ''Source and target paths are the same''"
    by code_simp
  have "?X = (fst ?X, fst (snd ?X), snd (snd ?X))" by simp
  from rejection_leaves_filesystem [OF wiki_tree_noop this] st
  have "snd (snd ?X) = wiki_tree" by blast
  with st msg show ?thesis by blast
qed

subsection \<open>The secondary stores\<close>

text \<open>
  The filesystems that the calls of the secondary stores can lead to: any number of
  \<open>MkdirAll\<close> and \<open>Rename\<close> calls on the versions and comments paths of the
  source and of the resolved path, whatever they answer.
\<close>

inductive secondary_calls :: "'fs os \<Rightarrow> Config \<Rightarrow> string \<Rightarrow> string \<Rightarrow> 'fs \<Rightarrow> 'fs \<Rightarrow> bool"
  for ops :: "'fs os" and cfg :: Config and sourcePath :: string and newPath :: string
  where
    no_call: "secondary_calls ops cfg sourcePath newPath fs fs"
  | versions_MkdirAll:
      "secondary_calls ops cfg sourcePath newPath fs fs1 \<Longrightarrow>
       os_MkdirAll ops fs1 (Dir (versionsPath cfg newPath)) = (err, fs2) \<Longrightarrow>
       secondary_calls ops cfg sourcePath newPath fs fs2"
  | versions_Rename:
      "secondary_calls ops cfg sourcePath newPath fs fs1 \<Longrightarrow>
       os_Rename ops fs1 (versionsPath cfg sourcePath) (versionsPath cfg newPath) = (err, fs2) \<Longrightarrow>
       secondary_calls ops cfg sourcePath newPath fs fs2"
  | comments_MkdirAll:
      "secondary_calls ops cfg sourcePath newPath fs fs1 \<Longrightarrow>
       os_MkdirAll ops fs1 (Dir (Join [Wiki_RootDir cfg, ''comments'', newPath])) = (err, fs2) \<Longrightarrow>
       secondary_calls ops cfg sourcePath newPath fs fs2"
  | comments_Rename:
      "secondary_calls ops cfg sourcePath newPath fs fs1 \<Longrightarrow>
       os_Rename ops fs1 (Join [Wiki_RootDir cfg, ''comments'', sourcePath])
         (Join [Wiki_RootDir cfg, ''comments'', newPath]) = (err, fs2) \<Longrightarrow>
       secondary_calls ops cfg sourcePath newPath fs fs2"











subsection \<open>The home page guards\<close>

text \<open>
  The cases the guards of lines 60--87 do catch: a POST request with a session and a
  decodable body is answered 400, and the filesystem is left as it was, when the source
  path is empty, or its normal form is empty, is \<open>/\<close>, equals \<open>pages/home\<close> up to
  case or ends with \<open>/homepage\<close>, or when the normal form of the target path equals
  \<open>pages/home\<close> up to case.
\<close>

lemma home_page_guard:
  assumes "Method r = ''POST''" and "GetSession ss r = Some session" and "Body r = Some req"
    and "SourcePath req = []
         \<or> cleanPath (SourcePath req) = []
         \<or> cleanPath (SourcePath req) = ''/''
         \<or> EqualFold (cleanPath (SourcePath req)) ''pages/home''
         \<or> HasSuffix (cleanPath (SourcePath req)) ''/homepage''
         \<or> EqualFold (cleanPath (TargetPath req)) ''pages/home''"
  shows "StatusCode (fst (MoveDocumentHandler ops ss cfg r fs)) = 400
         \<and> \<not> Success (Payload (fst (MoveDocumentHandler ops ss cfg r fs)))
         \<and> snd (snd (MoveDocumentHandler ops ss cfg r fs)) = fs"
  using assms
  by (auto simp: MoveDocumentHandler_def Let_def)

lemma long_s_home_page_guarded:
  "EqualFold (''page'' @ [CHR 0xC5, CHR 0xBF] @ ''/home'') ''pages/home''"
  by (simp add: EqualFold_def lower_byte_def)

text \<open>
  C5.  The guard meant to ``prevent moving the homepage'' tests the suffix
  \<open>/homepage\<close> on the path \<open>cleanPath\<close> has already stripped of its leading
  separator.  The source path \<open>/homepage\<close> ends with the reserved segment, is
  normalised to \<open>homepage\<close>, passes the guard, and the document is moved: the answer
  is 200, not 400.
\<close>

theorem root_homepage_is_relocated:
  "HasSuffix ''/homepage'' ''/homepage''
   \<and> Base ''/homepage'' = ''homepage''
   \<and> GetSession wiki_sessions (post ''tok-editor'' ''/homepage'' ''Archive'' [])
       = Some \<lparr>Username = ''erin'', Role = ''editor'', CreatedAt = 0\<rparr>
   \<and> StatusCode (fst (MoveDocumentHandler mem_os wiki_sessions wiki_cfg
                        (post ''tok-editor'' ''/homepage'' ''Archive'' []) wiki_tree)) = 200
   \<and> mem_Stat wiki_tree ''data/documents/Archive/homepage/document.md''
       = Inl (ENOENT ''data/documents/Archive/homepage/document.md'')
   \<and> mem_Stat (snd (snd (MoveDocumentHandler mem_os wiki_sessions wiki_cfg
                        (post ''tok-editor'' ''/homepage'' ''Archive'' []) wiki_tree)))
        ''data/documents/Archive/homepage/document.md'' = Inr False"
  by code_simp

subsection \<open>Classification\<close>

text \<open>
  C6.  A request with an empty target path and an empty new slug is answered 400
  before it is classified, also when the source is not at the root.
\<close>

theorem move_to_root_without_slug_rejected:
  "Dir (cleanPath ''Projects/test'') \<noteq> ''.''
   \<and> fst (MoveDocumentHandler mem_os wiki_sessions wiki_cfg
             (post ''tok-editor'' ''Projects/test'' [] []) wiki_tree)
       = sendJSONResponse False ''Either target path or new slug must be provided'' 400 [] []"
  by code_simp

subsection \<open>Path normalisation\<close>

text \<open>
  What \<open>cleanPath\<close> does reach: on a path without back-slash a second application
  changes nothing (\<open>cleanPath_idempotent_without_backslash\<close>, above), and on every
  path the result has no back-slash, so that a third application changes nothing.
\<close>

lemma cleanPath_no_backslash: "backslash \<notin> set (cleanPath p)"
  by (auto simp: cleanPath_def ReplaceAll_def Let_def)

lemma cleanPath_stable_after_two:
  "cleanPath (cleanPath (cleanPath p)) = cleanPath (cleanPath p)"
  by (rule cleanPath_idempotent_without_backslash) (rule cleanPath_no_backslash)

text \<open>
  C2.  \<open>cleanPath\<close> replaces back-slashes after it has cleaned the path and trimmed
  the separators at its ends, so the separators it makes of back-slashes are neither
  cleaned nor trimmed: \<open>a\<close> followed by a back-slash becomes \<open>a/\<close>, and
  \<open>cleanPath\<close> of that is \<open>a\<close>.  Normalising twice is not normalising once.
\<close>

theorem cleanPath_backslash_not_idempotent:
  "cleanPath (''a'' @ [backslash]) = ''a/''
   \<and> cleanPath (cleanPath (''a'' @ [backslash])) = ''a''
   \<and> cleanPath (cleanPath (''a'' @ [backslash])) \<noteq> cleanPath (''a'' @ [backslash])"
  by code_simp

subsection \<open>The resolved target path\<close>

text \<open>
  The resolved target path in the words of the specification (section 4.3, rules 3 to
  5), over the elements of the normalised paths: \<open>under\<close> places a name under a
  directory path, the empty path being the root.
\<close>

definition under :: "string \<Rightarrow> string \<Rightarrow> string" where
  "under dir name = (if dir = [] then name else dir @ ''/'' @ name)"

definition spec_parent :: "string \<Rightarrow> string" where
  "spec_parent sourcePath = strings_Join (butlast (elements sourcePath))"

definition spec_slug :: "string \<Rightarrow> string" where
  "spec_slug sourcePath = last (elements sourcePath)"

definition spec_resolved :: "string \<Rightarrow> string \<Rightarrow> string \<Rightarrow> string option" where
  "spec_resolved sourcePath targetPath newSlug =
     (let isRename = (newSlug \<noteq> []);
          moveToRoot = (targetPath = [] \<and> spec_parent sourcePath \<noteq> []);
          isMove = (targetPath \<noteq> [] \<or> moveToRoot)
      in if isRename \<and> \<not> isMove then Some (under (spec_parent sourcePath) newSlug)
         else if isMove \<and> \<not> isRename then Some (under targetPath (spec_slug sourcePath))
         else if isMove \<and> isRename then Some (under targetPath newSlug)
         else None)"

lemma Join_proper_not_dot:
  assumes p: "list_all proper_segment st" and ne: "st \<noteq> []"
  shows "strings_Join st \<noteq> ''.''"
proof
  assume d: "strings_Join st = ''.''"
  from p have "\<forall>e \<in> set st. \<forall>x \<in> set e. x \<noteq> CHR ''/''"
    by (auto simp: list_all_iff proper_segment_def)
  from elements_Join [OF ne this] d have "st = [''.'']" by simp
  with p show False by (simp add: proper_segment_def)
qed

lemma Dir_proper_root:
  assumes "proper_path p"
  shows "Dir p = ''.'' \<longleftrightarrow> butlast (elements p) = []"
proof (cases "butlast (elements p) = []")
  case True
  with Dir_proper [OF assms] show ?thesis by simp
next
  case False
  from assms have "list_all proper_segment (butlast (elements p))"
    by (auto simp: proper_path_def list_all_iff dest: in_set_butlastD)
  from Join_proper_not_dot [OF this False] Dir_proper [OF assms] False show ?thesis by simp
qed

lemma Clean_two_proper:
  assumes t: "proper_path t" and x: "proper_segment x"
  shows "Clean (t @ CHR ''/'' # x) = t @ CHR ''/'' # x"
  using Join_two_proper [OF t x] proper_path_not_Nil [OF t] by simp

lemma Clean_proper_segment: "proper_segment x \<Longrightarrow> Clean x = x"
  by (rule Clean_proper) (rule proper_segment_path)

lemma spec_parent_root:
  assumes "proper_path p"
  shows "spec_parent p = [] \<longleftrightarrow> butlast (elements p) = []"
proof -
  from assms have "\<forall>e \<in> set (butlast (elements p)). e \<noteq> []"
    by (auto simp: proper_path_def list_all_iff proper_segment_def dest: in_set_butlastD)
  from strings_Join_empty [OF this] show ?thesis by (simp add: spec_parent_def)
qed

lemma resolveNewPath_proper:
  assumes s: "proper_path s"
    and t: "t = [] \<or> proper_path t"
    and n: "n = [] \<or> proper_segment n"
  shows "resolveNewPath \<lparr>SourcePath = s, TargetPath = t, NewSlug = n\<rparr> (n \<noteq> [])
           (t \<noteq> [] \<or> (t = [] \<and> Dir s \<noteq> ''.''))
         = spec_resolved s t n"
proof -
  note root = Dir_proper_root [OF s] spec_parent_root [OF s]
  from s have bs: "proper_segment (last (elements s))"
    by (auto simp: proper_path_def list_all_iff)
  show ?thesis
  proof (cases "n = []")
    case True
    with t root show ?thesis
      by (auto simp: resolveNewPath_def spec_resolved_def under_def spec_slug_def
            Base_proper [OF s] Clean_two_proper [OF _ bs])
  next
    case False
    with n have pn: "proper_segment n" by simp
    from False t root pn show ?thesis
      by (auto simp: resolveNewPath_def spec_resolved_def under_def Let_def
            Clean_two_proper [OF _ pn] Clean_proper_segment [OF pn])
  qed
qed

lemma resolveNewPath_fields:
  "resolveNewPath moveReq isRename isMove
     = resolveNewPath \<lparr>SourcePath = SourcePath moveReq, TargetPath = TargetPath moveReq,
                        NewSlug = NewSlug moveReq\<rparr> isRename isMove"
  by (simp add: resolveNewPath_def)

lemma moveDocument_ok:
  assumes ok: "StatusCode (fst (moveDocument ops cfg moveReq newPath src tgt (logs, fs))) = 200"
  shows "fst (moveDocument ops cfg moveReq newPath src tgt (logs, fs))
           = sendJSONResponse True ''Document moved successfully'' 200 newPath (SourcePath moveReq)"
proof (cases "os_MkdirAll ops fs (Dir tgt)")
  case (Pair e fs1)
  show ?thesis
  proof (cases e)
    case (Some err)
    with Pair ok show ?thesis by (simp add: moveDocument_def)
  next
    case None
    show ?thesis
    proof (cases "src = tgt")
      case True
      with Pair None ok show ?thesis by (simp add: moveDocument_def Let_def)
    next
      case False
      obtain e2 fs2 where rn: "os_Rename ops fs1 src tgt = (e2, fs2)"
        by (cases "os_Rename ops fs1 src tgt")
      show ?thesis
      proof (cases e2)
        case (Some err)
        with Pair None False rn ok show ?thesis by (simp add: moveDocument_def Let_def)
      next
        case n2: None
        with Pair None False rn show ?thesis
          by (simp add: moveDocument_def Let_def mirrorAndReply_response)
      qed
    qed
  qed
qed

lemma planAndMove_ok:
  assumes ok: "StatusCode (fst (planAndMove ops cfg moveReq fs)) = 200"
  shows "\<exists>np. resolveNewPath moveReq (NewSlug moveReq \<noteq> [])
                 (TargetPath moveReq \<noteq> []
                  \<or> (TargetPath moveReq = [] \<and> Dir (SourcePath moveReq) \<noteq> ''.'')) = Some np
              \<and> fst (planAndMove ops cfg moveReq fs)
                  = sendJSONResponse True ''Document moved successfully'' 200 np
                      (SourcePath moveReq)"
proof -
  let ?src = "Join [Join [Wiki_RootDir cfg, Wiki_DocumentsDir cfg], SourcePath moveReq]"
  let ?res = "resolveNewPath moveReq (NewSlug moveReq \<noteq> [])
                 (TargetPath moveReq \<noteq> []
                  \<or> (TargetPath moveReq = [] \<and> Dir (SourcePath moveReq) \<noteq> ''.''))"
  show ?thesis
  proof (cases "os_Stat ops fs ?src")
    case (Inl err)
    with ok show ?thesis by (simp add: planAndMove_def Let_def split: if_splits)
  next
    case (Inr d)
    show ?thesis
    proof (cases ?res)
      case None
      with Inr ok show ?thesis by (simp add: planAndMove_def Let_def)
    next
      case (Some np)
      let ?tgt = "Join [Join [Wiki_RootDir cfg, Wiki_DocumentsDir cfg], np]"
      show ?thesis
      proof (cases "checkConflict ops fs moveReq ?src ?tgt")
        case c: (Some message)
        with Inr Some ok show ?thesis by (simp add: planAndMove_def Let_def)
      next
        case c: None
        from Inr Some c obtain logs where
          pm: "planAndMove ops cfg moveReq fs
                 = moveDocument ops cfg moveReq np ?src ?tgt (logs, fs)"
          by (simp add: planAndMove_def Let_def)
        with ok have "StatusCode (fst (moveDocument ops cfg moveReq np ?src ?tgt (logs, fs))) = 200"
          by simp
        from moveDocument_ok [OF this] pm Some show ?thesis by simp
      qed
    qed
  qed
qed

text \<open>
  C7, as the claim states it, fails: \<open>filepath.Join\<close> cleans what it joins and the
  new slug is not checked, so a slug \<open>../moved\<close> with the target path \<open>Archive\<close>
  resolves to \<open>moved\<close>, at the root and not under the target path.
\<close>

theorem slug_with_dotdot_escapes_target:
  "StatusCode (fst (MoveDocumentHandler mem_os wiki_sessions wiki_cfg
                      (post ''tok-editor'' ''Projects/test'' ''Archive'' ''../moved'') wiki_tree))
     = 200
   \<and> NewPath (Payload (fst (MoveDocumentHandler mem_os wiki_sessions wiki_cfg
                      (post ''tok-editor'' ''Projects/test'' ''Archive'' ''../moved'') wiki_tree)))
       = ''moved''
   \<and> spec_resolved ''Projects/test'' ''Archive'' ''../moved'' = Some ''Archive/../moved''
   \<and> \<not> HasPrefix ''moved'' ''Archive/''
   \<and> mem_Stat (snd (snd (MoveDocumentHandler mem_os wiki_sessions wiki_cfg
                      (post ''tok-editor'' ''Projects/test'' ''Archive'' ''../moved'') wiki_tree)))
        ''data/documents/moved/document.md'' = Inr False"
  by code_simp

text \<open>
  The paths are not checked either: a source path \<open>..\<close> is its own normal form,
  passes the guards, and moved under \<open>x\<close> it resolves to \<open>.\<close>.
\<close>

lemma dotdot_source_resolves_elsewhere:
  "cleanPath ''..'' = ''..''
   \<and> resolveNewPath \<lparr>SourcePath = ''..'', TargetPath = ''x'', NewSlug = []\<rparr> False True
       = Some ''.''"
  by code_simp

text \<open>
  C7, amended.  When the normalised source path and the normalised target path (if not
  empty) are made of proper segments (not empty, not \<open>.\<close>, not \<open>..\<close>, without
  separator) and the new slug is empty or one proper segment, the path the handler
  resolves is the one of the specification: rename-only keeps the source's parent and
  puts the new slug in place of the last segment, move-only puts the source's last
  segment under the target path, move-and-rename puts the new slug under the target
  path, the empty target path being the root; a request that is neither is not
  resolved.  A request answered 200 reports that path as \<open>newPath\<close>.
\<close>

theorem resolved_target_path:
  assumes post: "Method r = ''POST''" and sess: "GetSession ss r = Some session"
    and body: "Body r = Some req"
    and s: "proper_path (cleanPath (SourcePath req))"
    and t: "cleanPath (TargetPath req) = [] \<or> proper_path (cleanPath (TargetPath req))"
    and n: "NewSlug req = [] \<or> proper_segment (NewSlug req)"
  shows "resolveNewPath
           (req\<lparr>SourcePath := cleanPath (SourcePath req), TargetPath := cleanPath (TargetPath req)\<rparr>)
           (NewSlug req \<noteq> [])
           (cleanPath (TargetPath req) \<noteq> []
            \<or> (cleanPath (TargetPath req) = [] \<and> Dir (cleanPath (SourcePath req)) \<noteq> ''.''))
         = spec_resolved (cleanPath (SourcePath req)) (cleanPath (TargetPath req)) (NewSlug req)
         \<and> (StatusCode (fst (MoveDocumentHandler ops ss cfg r fs)) = 200 \<longrightarrow>
              Some (NewPath (Payload (fst (MoveDocumentHandler ops ss cfg r fs))))
                = spec_resolved (cleanPath (SourcePath req)) (cleanPath (TargetPath req))
                    (NewSlug req)
              \<and> OldPath (Payload (fst (MoveDocumentHandler ops ss cfg r fs)))
                = cleanPath (SourcePath req))"
proof -
  let ?s = "cleanPath (SourcePath req)" and ?t = "cleanPath (TargetPath req)"
  let ?m = "req\<lparr>SourcePath := ?s, TargetPath := ?t\<rparr>"
  have f: "SourcePath ?m = ?s" "TargetPath ?m = ?t" "NewSlug ?m = NewSlug req" by simp_all
  note rp = resolveNewPath_proper [OF s t n]
  have plan: "resolveNewPath ?m (NewSlug req \<noteq> []) (?t \<noteq> [] \<or> (?t = [] \<and> Dir ?s \<noteq> ''.''))
         = spec_resolved ?s ?t (NewSlug req)"
    by (subst resolveNewPath_fields) (simp only: f rp)
  have resp: "Some (NewPath (Payload (fst (MoveDocumentHandler ops ss cfg r fs))))
                = spec_resolved ?s ?t (NewSlug req)
              \<and> OldPath (Payload (fst (MoveDocumentHandler ops ss cfg r fs))) = ?s"
    if ok: "StatusCode (fst (MoveDocumentHandler ops ss cfg r fs)) = 200"
  proof -
    from ok post sess body have h: "MoveDocumentHandler ops ss cfg r fs = planAndMove ops cfg ?m fs"
      by (auto simp: MoveDocumentHandler_def Let_def split: if_splits)
    with ok have "StatusCode (fst (planAndMove ops cfg ?m fs)) = 200" by simp
    from planAndMove_ok [OF this] obtain np where
      np: "resolveNewPath ?m (NewSlug ?m \<noteq> [])
             (TargetPath ?m \<noteq> [] \<or> (TargetPath ?m = [] \<and> Dir (SourcePath ?m) \<noteq> ''.'')) = Some np"
      and r: "fst (planAndMove ops cfg ?m fs)
                = sendJSONResponse True ''Document moved successfully'' 200 np (SourcePath ?m)"
      by blast
    from np have "resolveNewPath ?m (NewSlug req \<noteq> []) (?t \<noteq> [] \<or> (?t = [] \<and> Dir ?s \<noteq> ''.''))
                    = Some np"
      by (simp only: f)
    with plan have "Some np = spec_resolved ?s ?t (NewSlug req)"
      by simp
    with r h show ?thesis by simp
  qed
  from plan resp show ?thesis by blast
qed

theorem resolved_target_path_witness:
  "proper_path (cleanPath ''Projects/test'') \<and> proper_path (cleanPath ''Archive'')
   \<and> proper_segment ''renamed''
   \<and> StatusCode (fst (MoveDocumentHandler mem_os wiki_sessions wiki_cfg
                        (post ''tok-editor'' ''Projects/test'' ''Archive'' ''renamed'') wiki_tree))
       = 200
   \<and> NewPath (Payload (fst (MoveDocumentHandler mem_os wiki_sessions wiki_cfg
                        (post ''tok-editor'' ''Projects/test'' ''Archive'' ''renamed'') wiki_tree)))
       = ''Archive/renamed''
   \<and> spec_resolved ''Projects/test'' ''Archive'' ''renamed'' = Some ''Archive/renamed''"
proof -
  let ?r = "post ''tok-editor'' ''Projects/test'' ''Archive'' ''renamed''"
  let ?q = "\<lparr>SourcePath = ''Projects/test'', TargetPath = ''Archive'', NewSlug = ''renamed''\<rparr>"
  let ?H = "MoveDocumentHandler mem_os wiki_sessions wiki_cfg ?r wiki_tree"
  have m: "Method ?r = ''POST''" by (simp add: post_def)
  have g: "GetSession wiki_sessions ?r
             = Some \<lparr>Username = ''erin'', Role = ''editor'', CreatedAt = 0\<rparr>"
    by code_simp
  have b: "Body ?r = Some ?q" by (simp add: post_def)
  have cs: "cleanPath ''Projects/test'' = ''Projects/test''" by code_simp
  have ct: "cleanPath ''Archive'' = ''Archive''" by code_simp
  have ps: "proper_path ''Projects/test''" by code_simp
  have pt: "proper_path ''Archive''" by code_simp
  have pn: "proper_segment ''renamed''" by code_simp
  have s: "proper_path (cleanPath (SourcePath ?q))" using ps cs by simp
  have t: "cleanPath (TargetPath ?q) = [] \<or> proper_path (cleanPath (TargetPath ?q))"
    using pt ct by simp
  have n: "NewSlug ?q = [] \<or> proper_segment (NewSlug ?q)" using pn by simp
  have st: "StatusCode (fst ?H) = 200" by code_simp
  have sr: "spec_resolved ''Projects/test'' ''Archive'' ''renamed'' = Some ''Archive/renamed''"
    by code_simp
  from resolved_target_path [OF m g b s t n, of mem_os wiki_cfg wiki_tree] st
  have "Some (NewPath (Payload (fst ?H)))
          = spec_resolved (cleanPath (SourcePath ?q)) (cleanPath (TargetPath ?q)) (NewSlug ?q)"
    by blast
  with cs ct sr have "NewPath (Payload (fst ?H)) = ''Archive/renamed''" by simp
  with ps pt pn cs ct st sr show ?thesis by simp
qed

end
